theory Spec2Isabelle
  imports
    Complex_Main
    "HOL-Library.Char_ord"
    "HOL-Library.List_Lexorder"
    "HOL-Library.Sublist"
    "HOL-Library.AList"
    "HOL-Library.Multiset"
begin

section \<open>JavaScript values used by app.js\<close>

text \<open>
  Strings are lists of code units; the default \<^verbatim>\<open>Array.prototype.sort\<close> order on
  strings (lexicographic on code units, a proper prefix first) is the list order of
  \<open>List_Lexorder\<close> over the character order of \<open>Char_ord\<close>.

  A JSON field of string type that may be missing is a \<open>string option\<close>. The source
  reads such fields through \<^verbatim>\<open>x || ""\<close> or through a truthiness test, for which
  \<^verbatim>\<open>undefined\<close>, \<^verbatim>\<open>null\<close> and \<^verbatim>\<open>""\<close> are alike.
\<close>

definition ROOT_KEY :: string where
  "ROOT_KEY = ''__root__''"

definition truthy :: "string option \<Rightarrow> bool" where
  "truthy v = (case v of None \<Rightarrow> False | Some s \<Rightarrow> s \<noteq> [])"

definition orEmpty :: "string option \<Rightarrow> string" where
  "orEmpty v = (case v of None \<Rightarrow> [] | Some s \<Rightarrow> s)"

definition startsWith :: "string \<Rightarrow> string \<Rightarrow> bool" where
  "startsWith s p = (take (length p) s = p)"

text \<open>
  A JSON object used as a dictionary is an association list: \<^verbatim>\<open>Object.keys\<close> and
  \<^verbatim>\<open>Object.values\<close> list its own entries in order. The read \<^verbatim>\<open>dict[key]\<close> gives
  the own entry of the key when there is one. Otherwise it gives what every object
  inherits from \<^verbatim>\<open>Object.prototype\<close>: under each of the names below a built-in
  function (under \<^verbatim>\<open>__proto__\<close> the prototype itself), which is truthy and has
  none of the fields that the script reads from an entry, apart from the \<^verbatim>\<open>name\<close>
  that a function has; under every other key the read gives \<^verbatim>\<open>undefined\<close>. The
  entries themselves are objects, so an own entry is truthy.
\<close>

definition objectPrototypeNames :: "string list" where
  "objectPrototypeNames =
     [''constructor'', ''__defineGetter__'', ''__defineSetter__'', ''hasOwnProperty'',
      ''__lookupGetter__'', ''__lookupSetter__'', ''isPrototypeOf'', ''propertyIsEnumerable'',
      ''toString'', ''valueOf'', ''__proto__'', ''toLocaleString'']"

datatype 'a property = Own 'a | Inherited | Absent

definition getProperty :: "(string \<times> 'a) list \<Rightarrow> string \<Rightarrow> 'a property" where
  "getProperty dict key =
     (case map_of dict key of
        Some entry \<Rightarrow> Own entry
      | None \<Rightarrow> if key \<in> set objectPrototypeNames then Inherited else Absent)"

text \<open>The guarded read \<^verbatim>\<open>table && table[key]\<close> of a dictionary that the snapshot may
  lack.\<close>

definition lookupIn :: "(string \<times> 'a) list option \<Rightarrow> string \<Rightarrow> 'a property" where
  "lookupIn table key = (case table of None \<Rightarrow> Absent | Some dict \<Rightarrow> getProperty dict key)"

text \<open>The \<^verbatim>\<open>name\<close> of the member inherited under a name: the constructor is the
  function \<^verbatim>\<open>Object\<close>, the prototype object has no name, and every other member is a
  function named as its key.\<close>

definition inheritedName :: "string \<Rightarrow> string option" where
  "inheritedName key =
     (if key = ''__proto__'' then None
      else if key = ''constructor'' then Some ''Object''
      else Some key)"

text \<open>A \<^verbatim>\<open>forEach\<close> whose body may throw or not return, which is the value
  \<open>None\<close>.\<close>

fun forEachM :: "('a \<Rightarrow> 'b \<Rightarrow> 'b option) \<Rightarrow> 'a list \<Rightarrow> 'b \<Rightarrow> 'b option" where
  "forEachM body [] acc = Some acc"
| "forEachM body (x # xs) acc =
     (case body x acc of None \<Rightarrow> None | Some acc \<Rightarrow> forEachM body xs acc)"

section \<open>Object labels and signatures\<close>

text \<open>
  \<^verbatim>\<open>formatObject\<close>, \<^verbatim>\<open>objectSignature\<close> and \<^verbatim>\<open>signatureForRef\<close> read only the
  fields \<^verbatim>\<open>type\<close>, \<^verbatim>\<open>name\<close> and \<^verbatim>\<open>group\<close>, of a graph object or of an input
  reference of a constructor; both record types below extend \<open>typed\<close>.
\<close>

record typed =
  type :: "string option"
  name :: "string option"
  group :: "string option"

record ref = typed +
  optional :: bool

definition formatObject :: "'a typed_scheme option \<Rightarrow> string" where
  "formatObject obj =
     (case obj of
        None \<Rightarrow> []
      | Some ob \<Rightarrow>
          (let label = (if truthy (type ob) then orEmpty (type ob) else ''unknown'');
               label = (if truthy (name ob) then label @ '' (name='' @ orEmpty (name ob) @ '')'' else label);
               label = (if truthy (group ob) then label @ '' [group='' @ orEmpty (group ob) @ '']'' else label)
           in label))"

definition objectSignature :: "string option \<Rightarrow> string option \<Rightarrow> string option \<Rightarrow> string" where
  "objectSignature t n g = orEmpty t @ ''|'' @ orEmpty n @ ''|'' @ orEmpty g"

definition signatureForRef :: "'a typed_scheme \<Rightarrow> string" where
  "signatureForRef r =
     (let t = orEmpty (type r);
          t = (if truthy (group r) \<and> startsWith t ''[]'' then drop 2 t else t)
      in objectSignature (Some t) (name r) (group r))"

section \<open>The graph snapshot and the global state\<close>

text \<open>
  The snapshot is the JSON document \<^verbatim>\<open>graph.json\<close>. Its dictionaries are
  association lists with distinct keys. The script reads \<^verbatim>\<open>state.graph.modules[...]\<close>
  without a guard, so the module map is a field that every snapshot has; each of
  \<^verbatim>\<open>objects\<close>, \<^verbatim>\<open>constructors\<close>, \<^verbatim>\<open>invokers\<close> and \<^verbatim>\<open>decorators\<close> is read
  behind a guard and is \<open>None\<close> when the snapshot lacks it. A list field that the
  source reads through \<^verbatim>\<open>x || []\<close> is a list, empty when the field is missing. A JS
  \<^verbatim>\<open>Map\<close> is an association list in insertion order (\<^verbatim>\<open>set\<close> is
  \<open>AList.update\<close>), and a JS \<^verbatim>\<open>Set\<close> is the list of its elements in insertion
  order. Numbers are rationals.
\<close>

record module_entry =
  parent :: "string option"
  children :: "string list"
  description :: "string option"

text \<open>An entry of \<^verbatim>\<open>constructors\<close>, \<^verbatim>\<open>invokers\<close> or \<^verbatim>\<open>decorators\<close>; the two
  spellings of the export flag are read by truthiness.\<close>

record node_def =
  def_modulePath :: "string option"
  def_inputs :: "ref list"
  def_exported :: bool
  def_Exported :: bool

text \<open>A graph object; \<open>obj_exported\<close> and \<open>obj_Exported\<close> are \<open>Some b\<close> exactly when
  the field \<^verbatim>\<open>exported\<close> (resp. \<^verbatim>\<open>Exported\<close>) is present with
  \<^verbatim>\<open>typeof\<close> equal to \<^verbatim>\<open>"boolean"\<close>.\<close>

record obj = typed +
  obj_id :: string
  obj_modulePath :: "string option"
  providedBy :: "string list"
  consumedBy :: "string list"
  obj_exported :: "bool option"
  obj_Exported :: "bool option"

record edge =
  edge_from :: string
  edge_to :: string
  edge_kind :: string

record graph =
  g_modules :: "(string \<times> module_entry) list"
  g_objects :: "(string \<times> obj) list option"
  g_constructors :: "(string \<times> node_def) list option"
  g_invokers :: "(string \<times> node_def) list option"
  g_decorators :: "(string \<times> node_def) list option"
  g_edges :: "edge list"

text \<open>A scene node: the sprite's \<^verbatim>\<open>visible\<close> flag is the only part of the mesh that
  the layout and aggregation engine reads.\<close>

record node =
  node_id :: string
  node_modulePath :: string
  mesh_visible :: bool

record index_entry =
  ie_id :: string
  ie_type :: "string option"
  ie_name :: string
  ie_group :: string
  ie_label :: string
  ie_providers :: "string list"
  ie_isPrivate :: bool

record search_entry =
  se_label :: string
  se_modulePath :: string
  se_signature :: string
  se_searchKey :: string
  se_isPrivate :: bool

record camera_state =
  cam_x :: rat
  cam_y :: rat
  cam_zoom :: rat

record snapshot =
  snap_selectedId :: "string option"
  snap_expandedModules :: "string list"
  snap_camera :: camera_state

text \<open>The global \<^verbatim>\<open>state\<close> object, with the camera that \<^verbatim>\<open>captureViewState\<close>
  reads (the mesh lists, which only the renderer uses, are left out).\<close>

record state =
  graph :: graph
  nodes :: "(string \<times> node) list"
  edges :: "(string \<times> string) list"
  moduleDeps :: "(string \<times> string list) list"
  moduleDepObjects :: "(string \<times> (string \<times> string list) list) list"
  expandedModules :: "string list"
  selectedId :: "string option"
  hoveredId :: "string option"
  moduleOrder :: "string list"
  objectIndex :: "index_entry list"
  objectRefIndex :: "(string \<times> index_entry list) list"
  searchEntries :: "search_entry list"
  history :: "snapshot list"
  historyLocked :: bool
  camera :: camera_state

definition DEFAULT_ZOOM :: rat where
  "DEFAULT_ZOOM = 12 / 10"

definition emptyGraph :: graph where
  "emptyGraph = \<lparr> g_modules = [], g_objects = None, g_constructors = None, g_invokers = None,
     g_decorators = None, g_edges = [] \<rparr>"

text \<open>The state as the script creates it, around a loaded graph.\<close>

definition initialState :: "graph \<Rightarrow> state" where
  "initialState g =
     \<lparr> graph = g, nodes = [], edges = [], moduleDeps = [], moduleDepObjects = [],
       expandedModules = [], selectedId = None, hoveredId = None, moduleOrder = [],
       objectIndex = [], objectRefIndex = [], searchEntries = [], history = [],
       historyLocked = False,
       camera = \<lparr> cam_x = 0, cam_y = 0, cam_zoom = DEFAULT_ZOOM \<rparr> \<rparr>"

text \<open>\<^verbatim>\<open>set.add(x)\<close> on a JS \<^verbatim>\<open>Set\<close>.\<close>

definition setAdd :: "'a \<Rightarrow> 'a list \<Rightarrow> 'a list" where
  "setAdd x xs = (if x \<in> set xs then xs else xs @ [x])"

section \<open>The object index\<close>

text \<open>
  \<^verbatim>\<open>providerModulesForObject\<close>: the module path of what
  \<^verbatim>\<open>state.graph.constructors[providerId]\<close> gives when that is truthy, or else of what
  \<^verbatim>\<open>state.graph.decorators[providerId]\<close> gives (an inherited member has no module
  path), kept when it is non-empty and \<^verbatim>\<open>state.graph.modules[modulePath]\<close> is truthy;
  the set of them as a sorted array.
\<close>

definition providerModule :: "graph \<Rightarrow> string \<Rightarrow> string" where
  "providerModule g providerId =
     (case lookupIn (g_constructors g) providerId of
        Own ctor \<Rightarrow> orEmpty (def_modulePath ctor)
      | Inherited \<Rightarrow> []
      | Absent \<Rightarrow>
          (case lookupIn (g_decorators g) providerId of
             Own decor \<Rightarrow> orEmpty (def_modulePath decor)
           | Inherited \<Rightarrow> []
           | Absent \<Rightarrow> []))"

definition addProvider :: "graph \<Rightarrow> string \<Rightarrow> string list \<Rightarrow> string list" where
  "addProvider g providerId providers =
     (let modulePath = providerModule g providerId in
      if modulePath \<noteq> [] \<and> getProperty (g_modules g) modulePath \<noteq> Absent
      then setAdd modulePath providers else providers)"

definition providerModulesForObject :: "graph \<Rightarrow> obj \<Rightarrow> string list" where
  "providerModulesForObject g ob = sort (fold (addProvider g) (providedBy ob) [])"

text \<open>The provider ids that pass the test of \<^verbatim>\<open>providerModulesForObject\<close>; the objects
  that the index keeps are those with a provider module, and the signature map groups
  them by signature.\<close>

definition resolves :: "graph \<Rightarrow> string \<Rightarrow> bool" where
  "resolves g providerId =
     (providerModule g providerId \<noteq> [] \<and>
      getProperty (g_modules g) (providerModule g providerId) \<noteq> Absent)"

text \<open>The own entry of a key in a dictionary that the snapshot may lack. In the words of
  the specification, a provider id resolves when it names a known constructor or
  decorator whose module path exists in the module map.\<close>

definition entryOf :: "(string \<times> 'a) list option \<Rightarrow> string \<Rightarrow> 'a option" where
  "entryOf table key = (case table of None \<Rightarrow> None | Some dict \<Rightarrow> map_of dict key)"

definition specResolves :: "graph \<Rightarrow> string \<Rightarrow> bool" where
  "specResolves g providerId =
     (case (case entryOf (g_constructors g) providerId of
              Some ctor \<Rightarrow> Some ctor
            | None \<Rightarrow> entryOf (g_decorators g) providerId) of
        None \<Rightarrow> False
      | Some entry \<Rightarrow> map_of (g_modules g) (orEmpty (def_modulePath entry)) \<noteq> None)"

definition resolvable :: "graph \<Rightarrow> obj list \<Rightarrow> obj list" where
  "resolvable g obs = filter (\<lambda>ob. providerModulesForObject g ob \<noteq> []) obs"

definition withSignature :: "graph \<Rightarrow> string \<Rightarrow> obj list \<Rightarrow> obj list" where
  "withSignature g sig obs =
     filter (\<lambda>ob. objectSignature (type ob) (name ob) (group ob) = sig) (resolvable g obs)"

definition exportedValue :: "obj \<Rightarrow> bool option" where
  "exportedValue ob =
     (case obj_exported ob of
        Some b \<Rightarrow> Some b
      | None \<Rightarrow> (case obj_Exported ob of Some b \<Rightarrow> Some b | None \<Rightarrow> None))"

text \<open>The loop of \<^verbatim>\<open>isPrivateObject\<close> over \<^verbatim>\<open>obj.providedBy\<close>, on the pair
  \<^verbatim>\<open>(hasCtor, hasExported)\<close>.\<close>

definition ctorStep :: "graph \<Rightarrow> string \<Rightarrow> bool \<times> bool \<Rightarrow> bool \<times> bool" where
  "ctorStep g providerId flags =
     (case lookupIn (g_constructors g) providerId of
        Absent \<Rightarrow> flags
      | Inherited \<Rightarrow> (True, snd flags)
      | Own ctor \<Rightarrow>
          (True, if def_exported ctor \<or> def_Exported ctor then True else snd flags))"

definition isPrivateObject :: "graph \<Rightarrow> obj option \<Rightarrow> bool" where
  "isPrivateObject g obj =
     (case obj of
        None \<Rightarrow> False
      | Some ob \<Rightarrow>
          (case exportedValue ob of
             Some b \<Rightarrow> \<not> b
           | None \<Rightarrow>
               if length (providedBy ob) = 0 then False
               else
                 let (hasCtor, hasExported) = fold (ctorStep g) (providedBy ob) (False, False)
                 in hasCtor \<and> \<not> hasExported))"

text \<open>A provider id for which \<^verbatim>\<open>state.graph.constructors[providerId]\<close> is truthy, one
  that names a constructor (a key of the dictionary), and one that names a constructor
  carrying an export flag.\<close>

definition isCtor :: "graph \<Rightarrow> string \<Rightarrow> bool" where
  "isCtor g providerId = (lookupIn (g_constructors g) providerId \<noteq> Absent)"

definition namesCtor :: "graph \<Rightarrow> string \<Rightarrow> bool" where
  "namesCtor g providerId = (entryOf (g_constructors g) providerId \<noteq> None)"

definition ctorMarkedExported :: "graph \<Rightarrow> string \<Rightarrow> bool" where
  "ctorMarkedExported g providerId =
     (case entryOf (g_constructors g) providerId of
        None \<Rightarrow> False
      | Some ctor \<Rightarrow> def_exported ctor \<or> def_Exported ctor)"

text \<open>The reading of the specification: a provider id is marked exported when the
  constructor or decorator it names carries the flag, and an object without an explicit
  flag is private when it has a constructor provider and no provider marked exported.\<close>

definition providerMarkedExported :: "graph \<Rightarrow> string \<Rightarrow> bool" where
  "providerMarkedExported g providerId =
     (case entryOf (g_constructors g) providerId of
        Some ctor \<Rightarrow> def_exported ctor \<or> def_Exported ctor
      | None \<Rightarrow>
          (case entryOf (g_decorators g) providerId of
             Some decor \<Rightarrow> def_exported decor \<or> def_Exported decor
           | None \<Rightarrow> False))"

definition specInferredPrivate :: "graph \<Rightarrow> obj \<Rightarrow> bool" where
  "specInferredPrivate g ob =
     (list_ex (namesCtor g) (providedBy ob) \<and>
      \<not> list_ex (providerMarkedExported g) (providedBy ob))"

text \<open>
  \<^verbatim>\<open>String.prototype.toLowerCase\<close> on code units below 256: the letters A to Z and
  the capital letters of Latin-1 (U+00C0 to U+00DE but the multiplication sign) move up
  by 32.
\<close>

definition toLowerChar :: "char \<Rightarrow> char" where
  "toLowerChar c =
     (let n = (of_char c :: nat) in
      if (65 \<le> n \<and> n \<le> 90) \<or> (192 \<le> n \<and> n \<le> 222 \<and> n \<noteq> 215) then char_of (n + 32) else c)"

definition toLowerCase :: "string \<Rightarrow> string" where
  "toLowerCase s = map toLowerChar s"

text \<open>
  \<^verbatim>\<open>a.localeCompare(b)\<close> depends on the host's collation, so the comparison is a
  parameter. \<^verbatim>\<open>Array.prototype.sort\<close> with a comparator is a stable sort: insertion
  from the right, an element going before the first one that compares greater.
\<close>

fun insertBy :: "('a \<Rightarrow> 'a \<Rightarrow> int) \<Rightarrow> 'a \<Rightarrow> 'a list \<Rightarrow> 'a list" where
  "insertBy cmp x [] = [x]"
| "insertBy cmp x (y # ys) = (if cmp x y \<le> 0 then x # y # ys else y # insertBy cmp x ys)"

definition sortBy :: "('a \<Rightarrow> 'a \<Rightarrow> int) \<Rightarrow> 'a list \<Rightarrow> 'a list" where
  "sortBy cmp xs = foldr (insertBy cmp) xs []"

definition compareEntries :: "(string \<Rightarrow> string \<Rightarrow> int) \<Rightarrow> search_entry \<Rightarrow> search_entry \<Rightarrow> int" where
  "compareEntries localeCompare a b =
     (let label = localeCompare (se_label a) (se_label b) in
      if label \<noteq> 0 then label else localeCompare (se_modulePath a) (se_modulePath b))"

text \<open>One round of the loop of \<^verbatim>\<open>buildObjectIndex\<close> over the objects, on the three
  collections it fills.\<close>

record object_index =
  oi_objectIndex :: "index_entry list"
  oi_objectRefIndex :: "(string \<times> index_entry list) list"
  oi_searchEntries :: "search_entry list"

definition indexEntryFor :: "graph \<Rightarrow> obj \<Rightarrow> index_entry" where
  "indexEntryFor g ob =
     \<lparr> ie_id = obj_id ob, ie_type = type ob, ie_name = orEmpty (name ob),
       ie_group = orEmpty (group ob), ie_label = formatObject (Some ob),
       ie_providers = providerModulesForObject g ob,
       ie_isPrivate = isPrivateObject g (Some ob) \<rparr>"

definition searchEntryFor :: "graph \<Rightarrow> obj \<Rightarrow> string \<Rightarrow> search_entry" where
  "searchEntryFor g ob modulePath =
     \<lparr> se_label = formatObject (Some ob), se_modulePath = modulePath,
       se_signature = objectSignature (type ob) (name ob) (group ob),
       se_searchKey = toLowerCase (formatObject (Some ob)),
       se_isPrivate = isPrivateObject g (Some ob) \<rparr>"

definition indexObject :: "graph \<Rightarrow> obj \<Rightarrow> object_index \<Rightarrow> object_index" where
  "indexObject g ob acc =
     (let providers = providerModulesForObject g ob in
      if length providers = 0 then acc
      else
        let entry = indexEntryFor g ob;
            signature = objectSignature (type ob) (name ob) (group ob);
            refs = (case map_of (oi_objectRefIndex acc) signature of
                      None \<Rightarrow> AList.update signature [entry] (oi_objectRefIndex acc)
                    | Some entries \<Rightarrow>
                        AList.update signature (entries @ [entry]) (oi_objectRefIndex acc))
        in \<lparr> oi_objectIndex = oi_objectIndex acc @ [entry],
             oi_objectRefIndex = refs,
             oi_searchEntries = oi_searchEntries acc @ map (searchEntryFor g ob) providers \<rparr>)"

definition indexObjects :: "graph \<Rightarrow> obj list \<Rightarrow> object_index" where
  "indexObjects g obs =
     fold (indexObject g) obs
       \<lparr> oi_objectIndex = [], oi_objectRefIndex = [], oi_searchEntries = [] \<rparr>"

definition buildObjectIndex :: "(string \<Rightarrow> string \<Rightarrow> int) \<Rightarrow> state \<Rightarrow> state" where
  "buildObjectIndex localeCompare s =
     (let acc = indexObjects (graph s)
                  (case g_objects (graph s) of None \<Rightarrow> [] | Some dict \<Rightarrow> map snd dict)
      in s\<lparr> objectIndex := oi_objectIndex acc,
            objectRefIndex := oi_objectRefIndex acc,
            searchEntries := sortBy (compareEntries localeCompare) (oi_searchEntries acc) \<rparr>)"

section \<open>Object search\<close>

text \<open>
  \<^verbatim>\<open>String.prototype.trim\<close> on code units below 256 removes tab, line feed, vertical
  tab, form feed, carriage return, space and the no-break space from both ends;
  \<^verbatim>\<open>s.includes(q)\<close> holds when \<open>q\<close> starts at some position of \<open>s\<close>.
\<close>

definition isWhiteSpace :: "char \<Rightarrow> bool" where
  "isWhiteSpace c = ((of_char c :: nat) \<in> {9, 10, 11, 12, 13, 32, 160})"

definition trim :: "string \<Rightarrow> string" where
  "trim s = rev (dropWhile isWhiteSpace (rev (dropWhile isWhiteSpace s)))"

fun includesStr :: "string \<Rightarrow> string \<Rightarrow> bool" where
  "includesStr [] q = (q = [])"
| "includesStr (c # cs) q = (startsWith (c # cs) q \<or> includesStr cs q)"

text \<open>
  What \<^verbatim>\<open>renderSearchResults\<close> leaves in the results panel (when the panel
  element exists; the function returns at once when it does not): the hint to type, the
  notice that nothing matched, or the rows of the displayed entries, followed when more
  than fifty entries matched by the line "Showing first 50 of N matches." with
  \<open>N\<close> the number of matches.
\<close>

datatype search_panel =
  TypeToSearch
  | NoMatches
  | Rows "search_entry list" "nat option"

definition searchMatches :: "state \<Rightarrow> string \<Rightarrow> search_entry list" where
  "searchMatches s q = filter (\<lambda>entry. includesStr (se_searchKey entry) q) (searchEntries s)"

definition renderSearchResults :: "state \<Rightarrow> string \<Rightarrow> search_panel" where
  "renderSearchResults s query =
     (let q = toLowerCase (trim query) in
      if q = [] then TypeToSearch
      else
        let matches = searchMatches s q in
        if length matches = 0 then NoMatches
        else Rows (take 50 matches) (if length matches > 50 then Some (length matches) else None))"

text \<open>The number of matches that a panel states.\<close>

definition reportedCount :: "search_panel \<Rightarrow> nat option" where
  "reportedCount p = (case p of Rows shown cnt \<Rightarrow> cnt | _ \<Rightarrow> None)"

section \<open>View history\<close>

definition captureViewState :: "state \<Rightarrow> snapshot" where
  "captureViewState s =
     \<lparr> snap_selectedId = selectedId s,
       snap_expandedModules = expandedModules s,
       snap_camera = camera s \<rparr>"

text \<open>
  \<^verbatim>\<open>state.history[state.history.length - 1]\<close> is \<^verbatim>\<open>undefined\<close> on the empty stack,
  which the test \<^verbatim>\<open>last && ...\<close> rejects.
\<close>

definition pushHistory :: "state \<Rightarrow> state" where
  "pushHistory s =
     (if historyLocked s then s
      else
        let snapshot = captureViewState s in
        if history s \<noteq> [] \<and> snap_selectedId (last (history s)) = snap_selectedId snapshot
        then s
        else s\<lparr>history := history s @ [snapshot]\<rparr>)"

definition popHistory :: "state \<Rightarrow> snapshot option \<times> state" where
  "popHistory s =
     (if length (history s) = 0 then (None, s)
      else (Some (last (history s)), s\<lparr>history := butlast (history s)\<rparr>))"

section \<open>Scene nodes and the module adjacency\<close>

text \<open>
  \<^verbatim>\<open>state.graph.modules[p]?.parent || ""\<close>,
  \<^verbatim>\<open>state.graph.modules[p]?.children || []\<close> and the truthiness of
  \<^verbatim>\<open>state.graph.modules[p]\<close>: an inherited member is truthy and has neither a parent
  nor children.
\<close>

definition parentOf :: "state \<Rightarrow> string \<Rightarrow> string" where
  "parentOf s p =
     (case getProperty (g_modules (graph s)) p of
        Own m \<Rightarrow> orEmpty (parent m)
      | Inherited \<Rightarrow> []
      | Absent \<Rightarrow> [])"

definition childrenOf :: "state \<Rightarrow> string \<Rightarrow> string list" where
  "childrenOf s p =
     (case getProperty (g_modules (graph s)) p of
        Own m \<Rightarrow> children m
      | Inherited \<Rightarrow> []
      | Absent \<Rightarrow> [])"

definition isModule :: "state \<Rightarrow> string \<Rightarrow> bool" where
  "isModule s p = (getProperty (g_modules (graph s)) p \<noteq> Absent)"

definition isExpanded :: "state \<Rightarrow> string \<Rightarrow> bool" where
  "isExpanded s p = (p \<in> set (expandedModules s))"

definition moduleNodeId :: "string \<Rightarrow> string" where
  "moduleNodeId p = ''module:'' @ p"

text \<open>\<^verbatim>\<open>buildNodes\<close>: the sorted module paths become \<^verbatim>\<open>state.moduleOrder\<close>, and the
  node map gets the root node and then one node for each module; a new sprite is
  visible.\<close>

definition newNode :: "string \<Rightarrow> node" where
  "newNode p = \<lparr> node_id = moduleNodeId p, node_modulePath = p, mesh_visible = True \<rparr>"

definition buildNodes :: "state \<Rightarrow> state" where
  "buildNodes s =
     (let modules = sort (map fst (g_modules (graph s)))
      in s\<lparr> moduleOrder := modules,
            nodes := fold (\<lambda>p ns. AList.update (moduleNodeId p) (newNode p) ns)
                       (ROOT_KEY # modules) [] \<rparr>)"

text \<open>\<^verbatim>\<open>moduleForNodeId\<close>: the first of the four dictionaries in which the read of the
  id is truthy decides; an inherited member has no module path.\<close>

definition moduleForNodeId :: "graph \<Rightarrow> string \<Rightarrow> string" where
  "moduleForNodeId g ident =
     (if ident = [] then []
      else if startsWith ident ''module:'' then drop (length ''module:'') ident
      else
        case lookupIn (g_constructors g) ident of
          Own ctor \<Rightarrow> orEmpty (def_modulePath ctor)
        | Inherited \<Rightarrow> []
        | Absent \<Rightarrow>
            (case lookupIn (g_invokers g) ident of
               Own invoker \<Rightarrow> orEmpty (def_modulePath invoker)
             | Inherited \<Rightarrow> []
             | Absent \<Rightarrow>
                 (case lookupIn (g_decorators g) ident of
                    Own decor \<Rightarrow> orEmpty (def_modulePath decor)
                  | Inherited \<Rightarrow> []
                  | Absent \<Rightarrow>
                      (case lookupIn (g_objects g) ident of
                         Own ob \<Rightarrow> orEmpty (obj_modulePath ob)
                       | Inherited \<Rightarrow> []
                       | Absent \<Rightarrow> []))))"

text \<open>A \<^verbatim>\<open>Map\<close> from keys to \<^verbatim>\<open>Set\<close>s: the set under a key is created when the
  key is new, and then receives the elements.\<close>

definition addAll :: "'k \<Rightarrow> 'v list \<Rightarrow> ('k \<times> 'v list) list \<Rightarrow> ('k \<times> 'v list) list" where
  "addAll k vs m =
     (case map_of m k of
        None \<Rightarrow> AList.update k (fold setAdd vs []) m
      | Some old \<Rightarrow> AList.update k (fold setAdd vs old) m)"

text \<open>The label that \<^verbatim>\<open>buildModuleDeps\<close> adds for the source of an edge: that of the
  own entry of \<^verbatim>\<open>state.graph.objects\<close>, and for an inherited member that of an object
  with its \<^verbatim>\<open>name\<close> and neither type nor group.\<close>

definition sourceLabels :: "graph \<Rightarrow> string \<Rightarrow> string list" where
  "sourceLabels g ident =
     (case lookupIn (g_objects g) ident of
        Own ob \<Rightarrow> [formatObject (Some ob)]
      | Inherited \<Rightarrow>
          [formatObject (Some \<lparr> type = None, name = inheritedName ident, group = None \<rparr>)]
      | Absent \<Rightarrow> [])"

text \<open>One round of the loop of \<^verbatim>\<open>buildModuleDeps\<close> over the raw edges, on the pair of
  \<^verbatim>\<open>state.moduleDeps\<close> and \<^verbatim>\<open>state.moduleDepObjects\<close>. The map
  \<^verbatim>\<open>state.moduleDeps\<close> has a set for every key of the module map, and
  \<^verbatim>\<open>state.moduleDeps.get(toModule).add(fromModule)\<close> throws a \<^verbatim>\<open>TypeError\<close> when it
  has none for \<^verbatim>\<open>toModule\<close>, which is the value \<open>None\<close>.\<close>

definition edgeStep ::
  "graph \<Rightarrow> edge \<Rightarrow>
   (string \<times> string list) list \<times> (string \<times> (string \<times> string list) list) list \<Rightarrow>
   ((string \<times> string list) list \<times> (string \<times> (string \<times> string list) list) list) option" where
  "edgeStep g e acc =
     (if edge_kind e \<noteq> ''depends'' \<and> edge_kind e \<noteq> ''invokes'' then Some acc
      else
        let fromModule = moduleForNodeId g (edge_from e);
            toModule = moduleForNodeId g (edge_to e)
        in
          if fromModule = [] \<or> toModule = [] \<or> fromModule = toModule then Some acc
          else if getProperty (g_modules g) fromModule = Absent \<or>
                  getProperty (g_modules g) toModule = Absent
          then Some acc
          else
            case map_of (fst acc) toModule of
              None \<Rightarrow> None
            | Some dependencies \<Rightarrow>
                let deps = AList.update toModule (setAdd fromModule dependencies) (fst acc);
                    providerMap = (case map_of (snd acc) toModule of None \<Rightarrow> [] | Some m \<Rightarrow> m);
                    labels = sourceLabels g (edge_from e)
                in Some (deps,
                         AList.update toModule (addAll fromModule labels providerMap) (snd acc)))"

definition buildModuleDeps :: "state \<Rightarrow> state option" where
  "buildModuleDeps s =
     (let g = graph s
      in case forEachM (edgeStep g) (g_edges g)
                (fold (\<lambda>path deps. AList.update path [] deps) (map fst (g_modules g)) [], [])
         of None \<Rightarrow> None
          | Some acc \<Rightarrow> Some (s\<lparr> moduleDeps := fst acc, moduleDepObjects := snd acc \<rparr>))"

text \<open>The calls that follow the fetch of the snapshot, up to the first layout:
  \<^verbatim>\<open>buildModuleDeps\<close>, then \<^verbatim>\<open>buildNodes\<close>.\<close>

definition loadGraph :: "graph \<Rightarrow> state option" where
  "loadGraph g = map_option buildNodes (buildModuleDeps (initialState g))"

section \<open>The tree layout\<close>

text \<open>
  \<^verbatim>\<open>countVisible\<close> and \<^verbatim>\<open>place\<close> recurse over the children lists of the module map,
  which is what the snapshot says and need not be a tree: on a cycle of expanded modules
  the recursion exhausts the call stack and the call throws. The first argument bounds
  the depth of the calls, and \<open>None\<close> is the exception.
\<close>

fun countVisible :: "nat \<Rightarrow> state \<Rightarrow> string \<Rightarrow> nat option" where
  "countVisible 0 s modulePath = None"
| "countVisible (Suc fuel) s modulePath =
     (if \<not> isExpanded s modulePath then Some 1
      else
        map_option (foldl (+) 1)
          (those (map (\<lambda>child. countVisible fuel s child) (sort (childrenOf s modulePath)))))"

text \<open>The modules below a module, itself first: the walk over the children lists that
  \<^verbatim>\<open>collectModuleSubtree\<close> makes, as the list of its visits.\<close>

fun preorder :: "nat \<Rightarrow> state \<Rightarrow> string \<Rightarrow> string list option" where
  "preorder 0 s modulePath = None"
| "preorder (Suc fuel) s modulePath =
     map_option (\<lambda>below. modulePath # concat below)
       (those (map (\<lambda>child. preorder fuel s child) (childrenOf s modulePath)))"

record position =
  pos_x :: nat
  pos_y :: rat

record tree_layout =
  positions :: "(string \<times> position) list"
  layout_edges :: "(string \<times> string) list"

text \<open>The loop over the children with their sizes, which moves the cursor; the roots are
  laid out by the same loop under the root key.\<close>

fun placeEach ::
  "(string \<Rightarrow> nat \<Rightarrow> rat \<Rightarrow> tree_layout \<Rightarrow> tree_layout option) \<Rightarrow>
   string \<Rightarrow> nat \<Rightarrow> rat \<Rightarrow> (string \<times> nat) list \<Rightarrow> tree_layout \<Rightarrow> tree_layout option" where
  "placeEach pl modulePath depth cursor [] acc = Some acc"
| "placeEach pl modulePath depth cursor ((child, childSize) # rest) acc =
     (let childCenter = cursor + of_nat childSize / 2;
          acc = acc\<lparr> layout_edges := layout_edges acc @ [(modulePath, child)] \<rparr>
      in case pl child depth childCenter acc of
           None \<Rightarrow> None
         | Some acc \<Rightarrow> placeEach pl modulePath depth (cursor + of_nat childSize) rest acc)"

fun place :: "nat \<Rightarrow> state \<Rightarrow> string \<Rightarrow> nat \<Rightarrow> rat \<Rightarrow> tree_layout \<Rightarrow> tree_layout option" where
  "place 0 s modulePath depth centerY acc = None"
| "place (Suc fuel) s modulePath depth centerY acc =
     (let acc = acc\<lparr> positions :=
                  AList.update modulePath \<lparr> pos_x = depth, pos_y = centerY \<rparr> (positions acc) \<rparr>
      in
        if \<not> isExpanded s modulePath then Some acc
        else
          let children = sort (childrenOf s modulePath) in
          case those (map (\<lambda>child. countVisible fuel s child) children) of
            None \<Rightarrow> None
          | Some sizes \<Rightarrow>
              let total = foldl (+) 0 sizes
              in placeEach (\<lambda>child d y a. place fuel s child d y a) modulePath (depth + 1)
                   (centerY - of_nat total / 2) (zip children sizes) acc)"

definition moduleRoots :: "state \<Rightarrow> string list" where
  "moduleRoots s =
     sort (filter (\<lambda>path. parentOf s path = [] \<or> \<not> isModule s (parentOf s path)) (moduleOrder s))"

definition layoutTree :: "nat \<Rightarrow> state \<Rightarrow> tree_layout option" where
  "layoutTree fuel s =
     (let roots = moduleRoots s;
          acc = \<lparr> positions = AList.update ROOT_KEY \<lparr> pos_x = 0, pos_y = 0 \<rparr> [],
                  layout_edges = [] \<rparr>
      in case those (map (\<lambda>root. countVisible fuel s root) roots) of
           None \<Rightarrow> None
         | Some rootSizes \<Rightarrow>
             let totalRoots = foldl (+) 0 rootSizes
             in placeEach (\<lambda>root d y a. place fuel s root d y a) ROOT_KEY 1
                  (- of_nat totalRoots / 2) (zip roots rootSizes) acc)"

text \<open>
  \<^verbatim>\<open>applyLayout\<close>: every position whose module has a node makes the node visible and
  records its id; then every node whose id was not recorded becomes invisible. The scene
  coordinates that it also sets are not read by the engine.
\<close>

definition showNode ::
  "string \<times> position \<Rightarrow> (string \<times> node) list \<times> string list \<Rightarrow> (string \<times> node) list \<times> string list" where
  "showNode entry acc =
     (case map_of (fst acc) (moduleNodeId (fst entry)) of
        None \<Rightarrow> acc
      | Some n \<Rightarrow>
          (AList.update (moduleNodeId (fst entry)) (n\<lparr> mesh_visible := True \<rparr>) (fst acc),
           setAdd (node_id n) (snd acc)))"

definition hideNode :: "string list \<Rightarrow> string \<times> node \<Rightarrow> string \<times> node" where
  "hideNode visible entry =
     (if node_id (snd entry) \<in> set visible then entry
      else (fst entry, (snd entry)\<lparr> mesh_visible := False \<rparr>))"

definition applyLayout :: "tree_layout \<Rightarrow> state \<Rightarrow> state" where
  "applyLayout layout s =
     (let shown = fold showNode (positions layout) (nodes s, [])
      in s\<lparr> nodes := map (hideNode (snd shown)) (fst shown), edges := layout_edges layout \<rparr>)"

subsection \<open>The layout as a sequence of placements\<close>

text \<open>
  During \<^verbatim>\<open>layoutTree\<close> the positions map and the edge list are only written. A
  placement is one round of the loop over children: the parent, the child and the
  position that the call of \<^verbatim>\<open>place\<close> for the child sets. \<open>placeLog\<close> and
  \<open>eachLog\<close> list the placements that \<open>place\<close> and \<open>placeEach\<close> make below a
  module, in program order, and \<open>applyLog\<close> performs them on a layout.
\<close>

type_synonym placement = "string \<times> string \<times> position"

fun eachLog ::
  "(string \<Rightarrow> nat \<Rightarrow> rat \<Rightarrow> placement list option) \<Rightarrow>
   string \<Rightarrow> nat \<Rightarrow> rat \<Rightarrow> (string \<times> nat) list \<Rightarrow> placement list option" where
  "eachLog pl modulePath depth cursor [] = Some []"
| "eachLog pl modulePath depth cursor ((child, childSize) # rest) =
     (case pl child depth (cursor + of_nat childSize / 2) of
        None \<Rightarrow> None
      | Some below \<Rightarrow>
          (case eachLog pl modulePath depth (cursor + of_nat childSize) rest of
             None \<Rightarrow> None
           | Some later \<Rightarrow>
               Some ((modulePath, child,
                      \<lparr> pos_x = depth, pos_y = cursor + of_nat childSize / 2 \<rparr>) # below @ later)))"

fun placeLog :: "nat \<Rightarrow> state \<Rightarrow> string \<Rightarrow> nat \<Rightarrow> rat \<Rightarrow> placement list option" where
  "placeLog 0 s modulePath depth centerY = None"
| "placeLog (Suc fuel) s modulePath depth centerY =
     (if \<not> isExpanded s modulePath then Some []
      else
        case those (map (\<lambda>child. countVisible fuel s child) (sort (childrenOf s modulePath))) of
          None \<Rightarrow> None
        | Some sizes \<Rightarrow>
            eachLog (\<lambda>child d y. placeLog fuel s child d y) modulePath (depth + 1)
              (centerY - of_nat (foldl (+) 0 sizes) / 2)
              (zip (sort (childrenOf s modulePath)) sizes))"

definition treeLog :: "nat \<Rightarrow> state \<Rightarrow> placement list option" where
  "treeLog fuel s =
     (case those (map (\<lambda>root. countVisible fuel s root) (moduleRoots s)) of
        None \<Rightarrow> None
      | Some rootSizes \<Rightarrow>
          eachLog (\<lambda>root d y. placeLog fuel s root d y) ROOT_KEY 1
            (- of_nat (foldl (+) 0 rootSizes) / 2) (zip (moduleRoots s) rootSizes))"

definition applyLog :: "placement list \<Rightarrow> tree_layout \<Rightarrow> tree_layout" where
  "applyLog writes acc =
     \<lparr> positions = fold (\<lambda>e. AList.update (fst (snd e)) (snd (snd e))) writes (positions acc),
       layout_edges = layout_edges acc @ map (\<lambda>e. (fst e, fst (snd e))) writes \<rparr>"

text \<open>
  The subtree size of a module as a number (0 when \<^verbatim>\<open>countVisible\<close> does not return),
  the children under which \<^verbatim>\<open>place\<close> recurses, and the position of a child \<open>c\<close>
  among the children \<open>pre @ c # post\<close> of a parent at \<open>ppos\<close>: one level deeper,
  its center half of its own size after the sizes of the children before it, counted
  from the parent's center minus half of the total. \<open>slot\<close> says that a placement is
  made in the loop over the children with their sizes, by a round of the loop or by the
  call for one of the children.
\<close>

definition subtreeSize :: "nat \<Rightarrow> state \<Rightarrow> string \<Rightarrow> nat" where
  "subtreeSize fuel s p = (case countVisible fuel s p of None \<Rightarrow> 0 | Some n \<Rightarrow> n)"

definition visibleChildren :: "state \<Rightarrow> string \<Rightarrow> string list" where
  "visibleChildren s p = (if isExpanded s p then sort (childrenOf s p) else [])"

definition childPos ::
  "nat \<Rightarrow> state \<Rightarrow> position \<Rightarrow> string list \<Rightarrow> string \<Rightarrow> string list \<Rightarrow> position" where
  "childPos fuel s ppos pre c post =
     \<lparr> pos_x = pos_x ppos + 1,
       pos_y = pos_y ppos - of_nat (sum_list (map (subtreeSize fuel s) (pre @ c # post))) / 2
               + of_nat (sum_list (map (subtreeSize fuel s) pre))
               + of_nat (subtreeSize fuel s c) / 2 \<rparr>"

definition slot ::
  "(string \<Rightarrow> nat \<Rightarrow> rat \<Rightarrow> placement list option) \<Rightarrow>
   string \<Rightarrow> nat \<Rightarrow> rat \<Rightarrow> (string \<times> nat) list \<Rightarrow> placement \<Rightarrow> bool" where
  "slot pl par depth cursor kids e =
     (\<exists>pre c sz post below.
        kids = pre @ (c, sz) # post \<and>
        pl c depth (cursor + of_nat (sum_list (map snd pre)) + of_nat sz / 2) = Some below \<and>
        (e = (par, c, \<lparr> pos_x = depth,
                         pos_y = cursor + of_nat (sum_list (map snd pre)) + of_nat sz / 2 \<rparr>) \<or>
         e \<in> set below))"

text \<open>
  A placement is justified by a parent position when its child is one of the children
  and sits at its \<open>childPos\<close>. A sequence of placements is sound when each placement
  is justified either by the anchor (the module, or the root key, whose children the
  outermost loop runs over) or by the placement of its parent in the sequence, and
  complete when every child of the anchor, and every visible child of a placed module,
  is placed at its \<open>childPos\<close>.
\<close>

definition justified :: "nat \<Rightarrow> state \<Rightarrow> position \<Rightarrow> string list \<Rightarrow> placement \<Rightarrow> bool" where
  "justified fuel s ppos kids e =
     (\<exists>pre post. kids = pre @ fst (snd e) # post \<and>
        snd (snd e) = childPos fuel s ppos pre (fst (snd e)) post)"

definition soundLog ::
  "nat \<Rightarrow> state \<Rightarrow> string \<Rightarrow> position \<Rightarrow> string list \<Rightarrow> placement list \<Rightarrow> bool" where
  "soundLog fuel s anchor pos0 kids0 L =
     (\<forall>e\<in>set L.
        (fst e = anchor \<and> justified fuel s pos0 kids0 e) \<or>
        (\<exists>gp ppos. (gp, fst e, ppos) \<in> set L \<and>
           justified fuel s ppos (visibleChildren s (fst e)) e))"

definition completeLog ::
  "nat \<Rightarrow> state \<Rightarrow> string \<Rightarrow> position \<Rightarrow> string list \<Rightarrow> placement list \<Rightarrow> bool" where
  "completeLog fuel s anchor pos0 kids0 L =
     ((\<forall>pre c post. kids0 = pre @ c # post \<longrightarrow>
         (anchor, c, childPos fuel s pos0 pre c post) \<in> set L) \<and>
      (\<forall>gp q qpos pre c post.
         (gp, q, qpos) \<in> set L \<and> visibleChildren s q = pre @ c # post \<longrightarrow>
         (q, c, childPos fuel s qpos pre c post) \<in> set L))"

text \<open>
  The children that the layout places under a key (the sorted roots under the root key),
  the layouts in which no module is placed twice, and the two ends of the span of a
  child around its center.
\<close>

definition layoutChildren :: "state \<Rightarrow> string \<Rightarrow> string list" where
  "layoutChildren s p = (if p = ROOT_KEY then moduleRoots s else visibleChildren s p)"

definition treeShaped :: "tree_layout \<Rightarrow> bool" where
  "treeShaped layout = distinct (ROOT_KEY # map snd (layout_edges layout))"

definition spanLow :: "nat \<Rightarrow> state \<Rightarrow> position \<Rightarrow> string \<Rightarrow> rat" where
  "spanLow fuel s pos c = pos_y pos - of_nat (subtreeSize fuel s c) / 2"

definition spanHigh :: "nat \<Rightarrow> state \<Rightarrow> position \<Rightarrow> string \<Rightarrow> rat" where
  "spanHigh fuel s pos c = pos_y pos + of_nat (subtreeSize fuel s c) / 2"

text \<open>
  The module map is a forest below the roots when the walks over the children lists from
  the roots end and visit no module twice, and never the root key. \<open>walkOf\<close> is the
  walk from a module as a multiset.
\<close>

definition moduleForest :: "nat \<Rightarrow> state \<Rightarrow> bool" where
  "moduleForest fuel s =
     (case those (map (\<lambda>root. preorder fuel s root) (moduleRoots s)) of
        None \<Rightarrow> False
      | Some walks \<Rightarrow> distinct (ROOT_KEY # concat walks))"

definition walkOf :: "nat \<Rightarrow> state \<Rightarrow> string \<Rightarrow> string multiset" where
  "walkOf fuel s p = (case preorder fuel s p of None \<Rightarrow> {#} | Some ms \<Rightarrow> mset ms)"

section \<open>The visibility resolver and the dependency aggregation\<close>

definition nodeVisible :: "state \<Rightarrow> string \<Rightarrow> bool" where
  "nodeVisible s p =
     (case map_of (nodes s) (moduleNodeId p) of None \<Rightarrow> False | Some n \<Rightarrow> mesh_visible n)"

text \<open>
  The loop of \<^verbatim>\<open>resolveVisible\<close> up the parent links. The snapshot decides the links;
  on a cycle of invisible modules the loop does not end, which is the value \<open>None\<close>.
\<close>

partial_function (option) walkVisible :: "state \<Rightarrow> string \<Rightarrow> string option" where
  "walkVisible s current =
     (if current = [] then Some ROOT_KEY
      else if nodeVisible s current then Some current
      else if parentOf s current = [] \<or> parentOf s current = current then Some ROOT_KEY
      else walkVisible s (parentOf s current))"

declare walkVisible.simps [code]

text \<open>\<^verbatim>\<open>resolveVisible\<close> with the memo table \<^verbatim>\<open>visibleCache\<close> of the enclosing call of
  \<^verbatim>\<open>buildVisibleModuleDeps\<close>: the result and the table after the call.\<close>

definition resolveVisible ::
  "state \<Rightarrow> (string \<times> string) list \<Rightarrow> string \<Rightarrow> (string \<times> (string \<times> string) list) option" where
  "resolveVisible s visibleCache modulePath =
     (if modulePath = [] \<or> modulePath = ROOT_KEY then Some (ROOT_KEY, visibleCache)
      else
        case map_of visibleCache modulePath of
          Some cached \<Rightarrow> Some (cached, visibleCache)
        | None \<Rightarrow>
            (case walkVisible s modulePath of
               None \<Rightarrow> None
             | Some current \<Rightarrow> Some (current, AList.update modulePath current visibleCache)))"

text \<open>The resolver without its table, the tables that hold only its results, and the
  bound on the number of parent links to a node that ends the walk.\<close>

definition visibleStandIn :: "state \<Rightarrow> string \<Rightarrow> string option" where
  "visibleStandIn s p = (if p = [] \<or> p = ROOT_KEY then Some ROOT_KEY else walkVisible s p)"

definition cacheSound :: "state \<Rightarrow> (string \<times> string) list \<Rightarrow> bool" where
  "cacheSound s cache = list_all (\<lambda>(k, v). visibleStandIn s k = Some v) cache"

fun chainEnds :: "nat \<Rightarrow> state \<Rightarrow> string \<Rightarrow> bool" where
  "chainEnds 0 s p = (p = [] \<or> nodeVisible s p \<or> parentOf s p = [] \<or> parentOf s p = p)"
| "chainEnds (Suc n) s p =
     (p = [] \<or> nodeVisible s p \<or> parentOf s p = [] \<or> parentOf s p = p \<or>
      chainEnds n s (parentOf s p))"

record aggregation =
  visibleDeps :: "(string \<times> string list) list"
  objectsByEdge :: "(string \<times> string list) list"
  visibleCache :: "(string \<times> string) list"

record visible_deps =
  vd_deps :: "(string \<times> string list) list"
  vd_objects :: "(string \<times> string list) list"

definition edgeKey :: "string \<Rightarrow> string \<Rightarrow> string" where
  "edgeKey fromVisible toVisible = fromVisible @ ''->'' @ toVisible"

definition providerStep ::
  "state \<Rightarrow> string \<Rightarrow> string \<times> string list \<Rightarrow> aggregation \<Rightarrow> aggregation option" where
  "providerStep s fromVisible entry acc =
     (case resolveVisible s (visibleCache acc) (fst entry) of
        None \<Rightarrow> None
      | Some (toVisible, cache) \<Rightarrow>
          if toVisible = [] \<or> toVisible = ROOT_KEY \<or> toVisible = fromVisible
          then Some (acc\<lparr> visibleCache := cache \<rparr>)
          else Some (acc\<lparr> visibleDeps := addAll fromVisible [toVisible] (visibleDeps acc),
                          objectsByEdge :=
                            addAll (edgeKey fromVisible toVisible) (snd entry) (objectsByEdge acc),
                          visibleCache := cache \<rparr>))"

definition consumerStep ::
  "state \<Rightarrow> string \<times> (string \<times> string list) list \<Rightarrow> aggregation \<Rightarrow> aggregation option" where
  "consumerStep s entry acc =
     (case resolveVisible s (visibleCache acc) (fst entry) of
        None \<Rightarrow> None
      | Some (fromVisible, cache) \<Rightarrow>
          if fromVisible = [] \<or> fromVisible = ROOT_KEY
          then Some (acc\<lparr> visibleCache := cache \<rparr>)
          else forEachM (providerStep s fromVisible) (snd entry) (acc\<lparr> visibleCache := cache \<rparr>))"

text \<open>The coarser pass over \<^verbatim>\<open>state.moduleDeps\<close>, run when the first pass found no
  edge; it adds no labels.\<close>

definition depStep :: "state \<Rightarrow> string \<Rightarrow> string \<Rightarrow> aggregation \<Rightarrow> aggregation option" where
  "depStep s fromVisible dep acc =
     (case resolveVisible s (visibleCache acc) dep of
        None \<Rightarrow> None
      | Some (toVisible, cache) \<Rightarrow>
          if toVisible = [] \<or> toVisible = ROOT_KEY \<or> toVisible = fromVisible
          then Some (acc\<lparr> visibleCache := cache \<rparr>)
          else Some (acc\<lparr> visibleDeps := addAll fromVisible [toVisible] (visibleDeps acc),
                          visibleCache := cache \<rparr>))"

definition moduleStep ::
  "state \<Rightarrow> string \<times> string list \<Rightarrow> aggregation \<Rightarrow> aggregation option" where
  "moduleStep s entry acc =
     (case resolveVisible s (visibleCache acc) (fst entry) of
        None \<Rightarrow> None
      | Some (fromVisible, cache) \<Rightarrow>
          if fromVisible = [] \<or> fromVisible = ROOT_KEY
          then Some (acc\<lparr> visibleCache := cache \<rparr>)
          else forEachM (depStep s fromVisible) (snd entry) (acc\<lparr> visibleCache := cache \<rparr>))"

definition sortedObjects :: "(string \<times> string list) list \<Rightarrow> (string \<times> string list) list" where
  "sortedObjects byEdge = fold (\<lambda>entry objects. AList.update (fst entry) (sort (snd entry)) objects) byEdge []"

definition buildVisibleModuleDeps :: "state \<Rightarrow> visible_deps option" where
  "buildVisibleModuleDeps s =
     (case forEachM (consumerStep s) (moduleDepObjects s)
             \<lparr> visibleDeps = [], objectsByEdge = [], visibleCache = [] \<rparr> of
        None \<Rightarrow> None
      | Some acc \<Rightarrow>
          (case (if length (visibleDeps acc) = 0
                 then forEachM (moduleStep s) (moduleDeps s) acc else Some acc) of
             None \<Rightarrow> None
           | Some acc \<Rightarrow>
               Some \<lparr> vd_deps = visibleDeps acc, vd_objects = sortedObjects (objectsByEdge acc) \<rparr>))"

text \<open>\<^verbatim>\<open>curveBias\<close>: the loop over the code units of the key.\<close>

definition curveBias :: "string \<Rightarrow> int" where
  "curveBias key =
     (let hash = foldl (\<lambda>hash c. (hash * 31 + of_char c) mod 97) (0 :: nat) key
      in if hash mod 2 = 0 then 1 else - 1)"

text \<open>
  The dependency tubes that \<^verbatim>\<open>rebuildEdges\<close> creates from the aggregation: one for
  every visible dependency between two modules of the module map whose nodes are
  visible, with its bend direction and its sorted labels.
\<close>

record dep_edge =
  fromModule :: string
  toModule :: string
  bias :: int
  objects :: "string list"

definition depEdgesFor :: "state \<Rightarrow> visible_deps \<Rightarrow> string \<times> string list \<Rightarrow> dep_edge list" where
  "depEdgesFor s vd entry =
     (if fst entry = ROOT_KEY \<or> \<not> isModule s (fst entry) then []
      else
        concat (map (\<lambda>dep.
          if dep = ROOT_KEY \<or> \<not> isModule s dep then []
          else if \<not> nodeVisible s (fst entry) \<or> \<not> nodeVisible s dep then []
          else [\<lparr> fromModule = fst entry, toModule = dep,
                   bias = curveBias (edgeKey (fst entry) dep),
                   objects = (case map_of (vd_objects vd) (edgeKey (fst entry) dep) of
                                None \<Rightarrow> [] | Some labels \<Rightarrow> labels) \<rparr>]) (snd entry)))"

definition depEdges :: "state \<Rightarrow> visible_deps \<Rightarrow> dep_edge list" where
  "depEdges s vd = concat (map (depEdgesFor s vd) (vd_deps vd))"

text \<open>\<^verbatim>\<open>updateGraph\<close>: the layout, its application to the nodes, and the aggregation with
  the dependency tubes that \<^verbatim>\<open>rebuildEdges\<close> derives from it.\<close>

record graph_update =
  gu_state :: state
  gu_layout :: tree_layout
  gu_deps :: visible_deps
  gu_edges :: "dep_edge list"

definition updateGraph :: "nat \<Rightarrow> state \<Rightarrow> graph_update option" where
  "updateGraph fuel s =
     (case layoutTree fuel s of
        None \<Rightarrow> None
      | Some layout \<Rightarrow>
          let s' = applyLayout layout s in
          case buildVisibleModuleDeps s' of
            None \<Rightarrow> None
          | Some vd \<Rightarrow>
              Some \<lparr> gu_state = s', gu_layout = layout, gu_deps = vd,
                     gu_edges = depEdges s' vd \<rparr>)"

text \<open>
  The pairs that the aggregation keeps, in the order of the two loops: for an adjacency
  from consumers to providers with labels, the resolved consumer, the resolved provider
  and the labels of every raw pair whose ends resolve to two different nodes other than
  the root. \<open>depOf\<close> and \<open>labelsOf\<close> are what a kept pair adds to the visible edges
  and to the labels by edge key; \<open>fallbackAdjacency\<close> is \<^verbatim>\<open>state.moduleDeps\<close> read as
  an adjacency without labels. \<open>valuesAt\<close> is the set under a key, \<open>setsDistinct\<close>
  says that no key and no element of a set occurs twice, and \<open>contributions\<close> lists the
  label sets of the kept pairs with a given edge key (\<open>pairContributions\<close>: with given
  ends).
\<close>

definition providerEdges ::
  "state \<Rightarrow> string \<Rightarrow> (string \<times> string list) list \<Rightarrow> (string \<times> string \<times> string list) list" where
  "providerEdges s f providers =
     concat (map (\<lambda>entry.
       case visibleStandIn s (fst entry) of
         None \<Rightarrow> []
       | Some t \<Rightarrow> if t = ROOT_KEY \<or> t = f then [] else [(f, t, snd entry)]) providers)"

definition resolvedEdges ::
  "state \<Rightarrow> (string \<times> (string \<times> string list) list) list \<Rightarrow> (string \<times> string \<times> string list) list" where
  "resolvedEdges s adjacency =
     concat (map (\<lambda>entry.
       case visibleStandIn s (fst entry) of
         None \<Rightarrow> []
       | Some f \<Rightarrow> if f = ROOT_KEY then [] else providerEdges s f (snd entry)) adjacency)"

definition depOf :: "string \<times> string \<times> string list \<Rightarrow> (string \<times> string list) list \<Rightarrow> (string \<times> string list) list" where
  "depOf e = addAll (fst e) [fst (snd e)]"

definition labelsOf :: "string \<times> string \<times> string list \<Rightarrow> (string \<times> string list) list \<Rightarrow> (string \<times> string list) list" where
  "labelsOf e = addAll (edgeKey (fst e) (fst (snd e))) (snd (snd e))"

definition fallbackAdjacency ::
  "(string \<times> string list) list \<Rightarrow> (string \<times> (string \<times> string list) list) list" where
  "fallbackAdjacency deps = map (\<lambda>entry. (fst entry, map (\<lambda>dep. (dep, [])) (snd entry))) deps"

definition setsDistinct :: "('k \<times> 'v list) list \<Rightarrow> bool" where
  "setsDistinct m = (distinct (map fst m) \<and> (\<forall>e\<in>set m. distinct (snd e)))"

definition valuesAt :: "('k \<times> 'v list) list \<Rightarrow> 'k \<Rightarrow> 'v set" where
  "valuesAt m k = (case map_of m k of None \<Rightarrow> {} | Some vs \<Rightarrow> set vs)"

definition contributions :: "state \<Rightarrow> string \<Rightarrow> string list list" where
  "contributions s key =
     map (\<lambda>e. snd (snd e))
       (filter (\<lambda>e. edgeKey (fst e) (fst (snd e)) = key) (resolvedEdges s (moduleDepObjects s)))"

definition pairContributions :: "state \<Rightarrow> string \<Rightarrow> string \<Rightarrow> string list list" where
  "pairContributions s f t =
     map (\<lambda>e. snd (snd e))
       (filter (\<lambda>e. fst e = f \<and> fst (snd e) = t) (resolvedEdges s (moduleDepObjects s)))"

section \<open>Example snapshots\<close>

text \<open>
  A module \<open>pkg\<close> with the children \<open>pkg.a\<close> and \<open>pkg.b\<close>, the latter with the
  children \<open>pkg.b.c\<close> and \<open>pkg.b.d\<close>. A service and a logger are constructed in
  \<open>pkg.a\<close>; a constructor in \<open>pkg.b.c\<close> consumes the service and one in
  \<open>pkg.b.d\<close> consumes both. The object \<open>obj:Ghost\<close> names a provider that the
  snapshot does not have.
\<close>

definition leafModule :: "string \<Rightarrow> module_entry" where
  "leafModule p = \<lparr> parent = Some p, children = [], description = None \<rparr>"

definition serviceObject :: obj where
  "serviceObject =
     \<lparr> type = Some ''Service'', name = Some ''X'', group = None, obj_id = ''obj:Service'',
       obj_modulePath = Some ''pkg.a'', providedBy = [''ctor:newService''],
       consumedBy = [''ctor:newClient'', ''ctor:newWorker''],
       obj_exported = None, obj_Exported = None \<rparr>"

definition loggerObject :: obj where
  "loggerObject =
     \<lparr> type = Some ''Logger'', name = None, group = None, obj_id = ''obj:Logger'',
       obj_modulePath = Some ''pkg.a'', providedBy = [''ctor:newLogger''],
       consumedBy = [''ctor:newWorker''],
       obj_exported = None, obj_Exported = None \<rparr>"

definition ghostObject :: obj where
  "ghostObject =
     \<lparr> type = Some ''Ghost'', name = None, group = None, obj_id = ''obj:Ghost'',
       obj_modulePath = Some ''pkg.a'', providedBy = [''ctor:missing''],
       consumedBy = [], obj_exported = None, obj_Exported = None \<rparr>"

definition ctorIn :: "string \<Rightarrow> bool \<Rightarrow> node_def" where
  "ctorIn p e = \<lparr> def_modulePath = Some p, def_inputs = [], def_exported = e, def_Exported = False \<rparr>"

definition demoGraph :: graph where
  "demoGraph =
     \<lparr> g_modules =
         [(''pkg'', \<lparr> parent = None, children = [''pkg.a'', ''pkg.b''], description = None \<rparr>),
          (''pkg.a'', leafModule ''pkg''),
          (''pkg.b'', \<lparr> parent = Some ''pkg'', children = [''pkg.b.d'', ''pkg.b.c''], description = None \<rparr>),
          (''pkg.b.c'', leafModule ''pkg.b''),
          (''pkg.b.d'', leafModule ''pkg.b'')],
       g_objects =
         Some [(''obj:Service'', serviceObject), (''obj:Ghost'', ghostObject),
               (''obj:Logger'', loggerObject)],
       g_constructors =
         Some [(''ctor:newService'', ctorIn ''pkg.a'' True),
               (''ctor:newLogger'', ctorIn ''pkg.a'' False),
               (''ctor:newClient'', ctorIn ''pkg.b.c'' False),
               (''ctor:newWorker'', ctorIn ''pkg.b.d'' False)],
       g_invokers = Some [],
       g_decorators = Some [],
       g_edges =
         [\<lparr> edge_from = ''obj:Service'', edge_to = ''ctor:newClient'', edge_kind = ''depends'' \<rparr>,
          \<lparr> edge_from = ''obj:Service'', edge_to = ''ctor:newWorker'', edge_kind = ''depends'' \<rparr>,
          \<lparr> edge_from = ''obj:Logger'', edge_to = ''ctor:newWorker'', edge_kind = ''depends'' \<rparr>] \<rparr>"

text \<open>The state after loading the snapshot, with \<open>pkg\<close> expanded, and the same state
  after the layout has set the visibility of the nodes: \<open>pkg\<close>, \<open>pkg.a\<close> and
  \<open>pkg.b\<close> are visible, the children of \<open>pkg.b\<close> are not.\<close>

definition demoState :: state where
  "demoState =
     (case loadGraph demoGraph of
        None \<Rightarrow> initialState demoGraph
      | Some s \<Rightarrow> s\<lparr> expandedModules := [''pkg''] \<rparr>)"

definition demoVisible :: state where
  "demoVisible =
     (case layoutTree 4 demoState of
        None \<Rightarrow> demoState
      | Some layout \<Rightarrow> applyLayout layout demoState)"

text \<open>The same snapshot with every module that has children expanded.\<close>

definition fullState :: state where
  "fullState = demoState\<lparr> expandedModules := [''pkg'', ''pkg.b''] \<rparr>"

text \<open>The layout of the fully expanded snapshot.\<close>

definition fullLayout :: tree_layout where
  "fullLayout =
     \<lparr> positions =
         [(''__root__'', \<lparr>pos_x = 0, pos_y = 0\<rparr>),
          (''pkg'', \<lparr>pos_x = 1, pos_y = 0\<rparr>),
          (''pkg.a'', \<lparr>pos_x = 2, pos_y = - (3 / 2)\<rparr>),
          (''pkg.b'', \<lparr>pos_x = 2, pos_y = 1 / 2\<rparr>),
          (''pkg.b.c'', \<lparr>pos_x = 3, pos_y = 0\<rparr>),
          (''pkg.b.d'', \<lparr>pos_x = 3, pos_y = 1\<rparr>)],
       layout_edges =
         [(''__root__'', ''pkg''), (''pkg'', ''pkg.a''), (''pkg'', ''pkg.b''),
          (''pkg.b'', ''pkg.b.c''), (''pkg.b'', ''pkg.b.d'')] \<rparr>"

definition demoDeps :: visible_deps where
  "demoDeps = \<lparr> vd_deps = [(''pkg.b'', [''pkg.a''])],
     vd_objects = [(''pkg.b->pkg.a'', [''Logger'', ''Service (name=X)''])] \<rparr>"

text \<open>A comparison by code units, standing for the host's collation.\<close>

definition codeUnitCompare :: "string \<Rightarrow> string \<Rightarrow> int" where
  "codeUnitCompare a b = (if a < b then - 1 else if a = b then 0 else 1)"

text \<open>A constructor that is not exported and a decorator that is, both providing one
  object that has no export flag of its own.\<close>

definition privGraph :: graph where
  "privGraph = emptyGraph
     \<lparr> g_modules := [(''pkg'', \<lparr> parent = None, children = [], description = None \<rparr>)],
       g_constructors := Some [(''ctor:newService'', ctorIn ''pkg'' False)],
       g_decorators := Some [(''decorate:wrapService'', ctorIn ''pkg'' True)] \<rparr>"

definition privObject :: obj where
  "privObject =
     \<lparr> type = Some ''Service'', name = None, group = None, obj_id = ''obj:Service'',
       obj_modulePath = Some ''pkg'',
       providedBy = [''ctor:newService'', ''decorate:wrapService''],
       consumedBy = [], obj_exported = None, obj_Exported = None \<rparr>"

text \<open>A snapshot whose only object is provided by a constructor of a module path that
  is no key of the module map, but the name of a member of \<^verbatim>\<open>Object.prototype\<close>.\<close>

definition strayObject :: obj where
  "strayObject =
     \<lparr> type = Some ''Service'', name = None, group = None, obj_id = ''obj:Service'',
       obj_modulePath = None, providedBy = [''ctor:newService''],
       consumedBy = [], obj_exported = None, obj_Exported = None \<rparr>"

definition strayGraph :: graph where
  "strayGraph = emptyGraph
     \<lparr> g_modules := [(''pkg'', \<lparr> parent = None, children = [], description = None \<rparr>)],
       g_objects := Some [(''obj:Service'', strayObject)],
       g_constructors := Some [(''ctor:newService'', ctorIn ''constructor'' False)] \<rparr>"

text \<open>
  Four root modules, two of them with \<open>->\<close> in their paths. An object of type
  \<open>T1\<close> of module \<open>b->c\<close> is consumed by a constructor of module \<open>a\<close>, and an
  object of type \<open>T2\<close> of module \<open>c\<close> by a constructor of module \<open>a->b\<close>.
\<close>

definition rootModule :: module_entry where
  "rootModule = \<lparr> parent = None, children = [], description = None \<rparr>"

definition plainObject :: "string \<Rightarrow> string \<Rightarrow> string \<Rightarrow> obj" where
  "plainObject t p c =
     \<lparr> type = Some t, name = None, group = None, obj_id = ''obj:'' @ t,
       obj_modulePath = Some p, providedBy = [c], consumedBy = [],
       obj_exported = None, obj_Exported = None \<rparr>"

definition colGraph :: graph where
  "colGraph =
     \<lparr> g_modules =
         [(''a'', rootModule), (''a->b'', rootModule), (''b->c'', rootModule), (''c'', rootModule)],
       g_objects =
         Some [(''obj:T1'', plainObject ''T1'' ''b->c'' ''ctor:newT1''),
               (''obj:T2'', plainObject ''T2'' ''c'' ''ctor:newT2'')],
       g_constructors =
         Some [(''ctor:newT1'', ctorIn ''b->c'' True), (''ctor:newT2'', ctorIn ''c'' True),
               (''ctor:useT1'', ctorIn ''a'' True), (''ctor:useT2'', ctorIn ''a->b'' True)],
       g_invokers = None,
       g_decorators = None,
       g_edges =
         [\<lparr> edge_from = ''obj:T1'', edge_to = ''ctor:useT1'', edge_kind = ''depends'' \<rparr>,
          \<lparr> edge_from = ''obj:T2'', edge_to = ''ctor:useT2'', edge_kind = ''depends'' \<rparr>] \<rparr>"

definition colState :: state where
  "colState = (case loadGraph colGraph of None \<Rightarrow> initialState colGraph | Some s \<Rightarrow> s)"

text \<open>A reference to a value group of handlers, and the element-typed object.\<close>

definition handlersRef :: ref where
  "handlersRef =
     \<lparr> type = Some ''[]Handler'', name = None, group = Some ''handlers'', optional = False \<rparr>"

definition handlerObject :: obj where
  "handlerObject =
     \<lparr> type = Some ''Handler'', name = None, group = Some ''handlers'', obj_id = ''obj:Handler'',
       obj_modulePath = Some ''pkg'', providedBy = [], consumedBy = [],
       obj_exported = None, obj_Exported = None \<rparr>"

text \<open>The two search entries of the specification's search example.\<close>

definition fooEntry :: search_entry where
  "fooEntry = \<lparr> se_label = ''Foo'', se_modulePath = ''pkg.a'', se_signature = ''Foo||'',
     se_searchKey = ''foo'', se_isPrivate = False \<rparr>"

definition barEntry :: search_entry where
  "barEntry = \<lparr> se_label = ''Bar'', se_modulePath = ''pkg.b'', se_signature = ''Bar||'',
     se_searchKey = ''bar'', se_isPrivate = False \<rparr>"

definition searchState :: state where
  "searchState = (initialState emptyGraph)\<lparr> searchEntries := [barEntry, fooEntry] \<rparr>"

definition manyState :: state where
  "manyState = (initialState emptyGraph)\<lparr> searchEntries := replicate 51 fooEntry \<rparr>"

text \<open>A view with one history entry, taken while nothing was selected.\<close>

definition historyState :: state where
  "historyState = (initialState emptyGraph)
     \<lparr> selectedId := Some ''module:pkg.a'',
       history := [\<lparr> snap_selectedId = None, snap_expandedModules = [],
                     snap_camera = \<lparr> cam_x = 0, cam_y = 0, cam_zoom = DEFAULT_ZOOM \<rparr> \<rparr>] \<rparr>"

section \<open>Properties of the view history\<close>

lemma pushHistory_locked: "historyLocked s \<Longrightarrow> pushHistory s = s"
  by (simp add: pushHistory_def)

lemma pushHistory_same_selection:
  "history s \<noteq> [] \<Longrightarrow> snap_selectedId (last (history s)) = selectedId s \<Longrightarrow> pushHistory s = s"
  by (simp add: pushHistory_def captureViewState_def)

lemma pushHistory_appends:
  "\<not> historyLocked s \<Longrightarrow>
   history s = [] \<or> snap_selectedId (last (history s)) \<noteq> selectedId s \<Longrightarrow>
   pushHistory s = s\<lparr>history := history s @ [captureViewState s]\<rparr>"
  by (auto simp: pushHistory_def captureViewState_def Let_def)

lemma pushHistory_top:
  "\<not> historyLocked s \<Longrightarrow>
   history (pushHistory s) \<noteq> [] \<and> snap_selectedId (last (history (pushHistory s))) = selectedId s"
  by (auto simp: pushHistory_def captureViewState_def Let_def)

lemma pushHistory_keeps: "selectedId (pushHistory s) = selectedId s \<and> historyLocked (pushHistory s) = historyLocked s"
  by (simp add: pushHistory_def Let_def)

text \<open>
  Claim C9. \<^verbatim>\<open>pushHistory\<close> leaves the state unchanged while the lock is set, and
  when the stack is non-empty and its top entry has the selection of the snapshot being
  pushed; otherwise it appends the captured snapshot. A second push after a first one,
  with the same selection (whatever happened to the expansion set and the camera in
  between), adds no entry. \<^verbatim>\<open>popHistory\<close> returns null and changes nothing on the
  empty stack, and otherwise removes and returns the most recent entry.
\<close>

theorem history_push_pop:
  "(historyLocked s \<longrightarrow> pushHistory s = s) \<and>
   (history s \<noteq> [] \<and> snap_selectedId (last (history s)) = selectedId s \<longrightarrow> pushHistory s = s) \<and>
   (\<not> historyLocked s \<and> (history s = [] \<or> snap_selectedId (last (history s)) \<noteq> selectedId s) \<longrightarrow>
      history (pushHistory s) = history s @ [captureViewState s]) \<and>
   (history s' = history (pushHistory s) \<and> selectedId s' = selectedId s \<and>
      historyLocked s' = historyLocked s \<longrightarrow>
      history (pushHistory s') = history (pushHistory s) \<and>
      length (history (pushHistory s')) \<le> Suc (length (history s))) \<and>
   (history s = [] \<longrightarrow> popHistory s = (None, s)) \<and>
   (history s = h @ [e] \<longrightarrow> popHistory s = (Some e, s\<lparr>history := h\<rparr>))"
proof -
  have two: "history (pushHistory s') = history (pushHistory s) \<and>
      length (history (pushHistory s')) \<le> Suc (length (history s))"
    if a: "history s' = history (pushHistory s)" "selectedId s' = selectedId s"
          "historyLocked s' = historyLocked s"
  proof (cases "historyLocked s")
    case True
    then have "pushHistory s' = s'" "pushHistory s = s"
      using a by (simp_all add: pushHistory_locked)
    then show ?thesis using a by simp
  next
    case False
    then have "history s' \<noteq> []" "snap_selectedId (last (history s')) = selectedId s'"
      using a pushHistory_top [of s] by simp_all
    then have "pushHistory s' = s'" by (rule pushHistory_same_selection)
    moreover have "length (history (pushHistory s)) \<le> Suc (length (history s))"
      by (simp add: pushHistory_def Let_def)
    ultimately show ?thesis using a by simp
  qed
  show ?thesis
    using two
    by (auto simp: pushHistory_locked pushHistory_same_selection pushHistory_appends
        popHistory_def)
qed

theorem history_push_pop_witness:
  "history (pushHistory historyState) = history historyState @ [captureViewState historyState] \<and>
   history (pushHistory (pushHistory historyState)) = history (pushHistory historyState) \<and>
   pushHistory (historyState\<lparr>historyLocked := True\<rparr>) = historyState\<lparr>historyLocked := True\<rparr> \<and>
   popHistory (initialState emptyGraph) = (None, initialState emptyGraph) \<and>
   fst (popHistory historyState) = Some (last (history historyState)) \<and>
   history (snd (popHistory historyState)) = []"
  using history_push_pop [of historyState "pushHistory historyState" "[]" "last (history historyState)"]
    history_push_pop [of "historyState\<lparr>historyLocked := True\<rparr>" historyState]
    history_push_pop [of "initialState emptyGraph" historyState]
  by (simp add: historyState_def initialState_def pushHistory_def captureViewState_def)

section \<open>Properties of labels and signatures\<close>

text \<open>
  Claim C10. For a reference with a non-empty group whose type starts with \<open>[]\<close>, the
  signature is that of the type without its first two characters, so it is the signature
  that \<^verbatim>\<open>buildObjectIndex\<close> gives an object of the element type with the same name
  and group, while the label starts with the type as written; for every other reference
  the signature is that of the type unchanged.
\<close>

theorem signatureForRef_group_slice:
  "(truthy (group r) \<and> startsWith (orEmpty (type r)) ''[]'' \<longrightarrow>
      signatureForRef r = objectSignature (Some (drop 2 (orEmpty (type r)))) (name r) (group r) \<and>
      prefix (orEmpty (type r)) (formatObject (Some r))) \<and>
   (\<not> (truthy (group r) \<and> startsWith (orEmpty (type r)) ''[]'') \<longrightarrow>
      signatureForRef r = objectSignature (type r) (name r) (group r)) \<and>
   (truthy (group r) \<and> type r = Some (''[]'' @ t) \<and> type ob = Some t \<and>
      orEmpty (name ob) = orEmpty (name r) \<and> orEmpty (group ob) = orEmpty (group r) \<longrightarrow>
      signatureForRef r = objectSignature (type ob) (name ob) (group ob))"
  by (auto simp: signatureForRef_def objectSignature_def formatObject_def Let_def startsWith_def
      orEmpty_def truthy_def split: option.splits)

theorem signatureForRef_group_slice_witness:
  "signatureForRef handlersRef = ''Handler||handlers'' \<and>
   signatureForRef handlersRef =
     objectSignature (type handlerObject) (name handlerObject) (group handlerObject) \<and>
   formatObject (Some handlersRef) = ''[]Handler [group=handlers]'' \<and>
   signatureForRef (handlersRef\<lparr>group := None\<rparr>) = ''[]Handler||''"
  using signatureForRef_group_slice [of handlersRef "''Handler''" handlerObject]
    signatureForRef_group_slice [of "handlersRef\<lparr>group := None\<rparr>" "''Handler''" handlerObject]
  by (simp add: handlersRef_def handlerObject_def objectSignature_def formatObject_def
      truthy_def orEmpty_def startsWith_def)

section \<open>Properties of the object index\<close>

lemma lookupIn_Own: "(lookupIn table key = Own entry) = (entryOf table key = Some entry)"
  by (auto simp: lookupIn_def getProperty_def entryOf_def split: option.splits)

lemma lookupIn_Absent:
  "(lookupIn table key = Absent) =
     (entryOf table key = None \<and> (table = None \<or> key \<notin> set objectPrototypeNames))"
  by (auto simp: lookupIn_def getProperty_def entryOf_def split: option.splits)

lemma isCtor_names: "p \<notin> set objectPrototypeNames \<Longrightarrow> isCtor g p = namesCtor g p"
  by (auto simp: isCtor_def namesCtor_def lookupIn_Absent)

lemma ctorStep_flags:
  "ctorStep g p (a, b) = (a \<or> isCtor g p, b \<or> ctorMarkedExported g p)"
proof (cases "lookupIn (g_constructors g) p")
  case (Own ctor)
  then have "entryOf (g_constructors g) p = Some ctor"
    by (simp add: lookupIn_Own)
  with Own show ?thesis
    by (simp add: ctorStep_def isCtor_def ctorMarkedExported_def)
next
  case Inherited
  then have "entryOf (g_constructors g) p = None"
    by (auto simp: lookupIn_def getProperty_def entryOf_def split: option.splits if_splits)
  with Inherited show ?thesis
    by (simp add: ctorStep_def isCtor_def ctorMarkedExported_def)
next
  case Absent
  then have "entryOf (g_constructors g) p = None"
    by (simp add: lookupIn_Absent)
  with Absent show ?thesis
    by (simp add: ctorStep_def isCtor_def ctorMarkedExported_def)
qed

lemma fold_ctorStep:
  "fold (ctorStep g) ps (a, b) =
     (a \<or> list_ex (isCtor g) ps, b \<or> list_ex (ctorMarkedExported g) ps)"
  by (induction ps arbitrary: a b) (auto simp: ctorStep_flags)

text \<open>
  The inference of \<^verbatim>\<open>isPrivateObject\<close> on every object without an explicit flag: it
  is private exactly when the read \<^verbatim>\<open>state.graph.constructors[providerId]\<close> is truthy
  for one of its provider ids and none of them names a constructor marked exported.
\<close>

lemma isPrivateObject_lookup:
  "exportedValue ob = None \<Longrightarrow>
   isPrivateObject g (Some ob) =
     (list_ex (isCtor g) (providedBy ob) \<and> \<not> list_ex (ctorMarkedExported g) (providedBy ob))"
  by (auto simp: isPrivateObject_def fold_ctorStep)

text \<open>
  Claim C7, as the code has it. An object with an explicit boolean export flag is private
  exactly when the flag is false. Without one, and when none of its provider ids is the
  name of a member that every object inherits from \<^verbatim>\<open>Object.prototype\<close>, it is private
  exactly when one of its provider ids names a constructor and none names a constructor
  marked exported: the flags of decorators are not read.
\<close>

theorem isPrivateObject_rule:
  "(exportedValue ob = Some b \<longrightarrow> isPrivateObject g (Some ob) = (\<not> b)) \<and>
   (exportedValue ob = None \<and> (\<forall>p\<in>set (providedBy ob). p \<notin> set objectPrototypeNames) \<longrightarrow>
      isPrivateObject g (Some ob) =
        (list_ex (namesCtor g) (providedBy ob) \<and> \<not> list_ex (ctorMarkedExported g) (providedBy ob)))"
proof -
  have a: "isPrivateObject g (Some ob) = (\<not> b)" if "exportedValue ob = Some b"
    using that by (simp add: isPrivateObject_def)
  have b: "isPrivateObject g (Some ob) =
      (list_ex (namesCtor g) (providedBy ob) \<and> \<not> list_ex (ctorMarkedExported g) (providedBy ob))"
    if none: "exportedValue ob = None"
      and own: "\<forall>p\<in>set (providedBy ob). p \<notin> set objectPrototypeNames"
  proof -
    have "list_ex (isCtor g) (providedBy ob) = list_ex (namesCtor g) (providedBy ob)"
      using own by (auto simp: list_ex_iff isCtor_names)
    then show ?thesis
      by (simp add: isPrivateObject_lookup [OF none])
  qed
  show ?thesis
    using a b by blast
qed

lemma priv_names: "\<forall>p\<in>set (providedBy privObject). p \<notin> set objectPrototypeNames"
  by (simp add: privObject_def objectPrototypeNames_def)

theorem isPrivateObject_rule_witness:
  "isPrivateObject privGraph (Some privObject) \<and>
   \<not> isPrivateObject privGraph (Some (privObject\<lparr>obj_Exported := Some True\<rparr>)) \<and>
   \<not> isPrivateObject privGraph (Some (privObject\<lparr>providedBy := [''decorate:wrapService'']\<rparr>))"
proof -
  have e: "exportedValue privObject = None"
    "exportedValue (privObject\<lparr>obj_Exported := Some True\<rparr>) = Some True"
    "exportedValue (privObject\<lparr>providedBy := [''decorate:wrapService'']\<rparr>) = None"
    by (simp_all add: exportedValue_def privObject_def)
  have n: "\<forall>p\<in>set (providedBy (privObject\<lparr>providedBy := [''decorate:wrapService'']\<rparr>)).
      p \<notin> set objectPrototypeNames"
    by (simp add: objectPrototypeNames_def)
  have c: "namesCtor privGraph ''ctor:newService''"
    "\<not> namesCtor privGraph ''decorate:wrapService''"
    "\<not> ctorMarkedExported privGraph ''ctor:newService''"
    "\<not> ctorMarkedExported privGraph ''decorate:wrapService''"
    by (simp_all add: namesCtor_def ctorMarkedExported_def entryOf_def privGraph_def
        emptyGraph_def ctorIn_def)
  from isPrivateObject_rule [of privObject True privGraph] e(1) priv_names c
  have x: "isPrivateObject privGraph (Some privObject)"
    by (simp add: privObject_def)
  from isPrivateObject_rule [of "privObject\<lparr>obj_Exported := Some True\<rparr>" True privGraph] e(2)
  have y: "\<not> isPrivateObject privGraph (Some (privObject\<lparr>obj_Exported := Some True\<rparr>))"
    by simp
  from isPrivateObject_rule [of "privObject\<lparr>providedBy := [''decorate:wrapService'']\<rparr>" True privGraph]
    e(3) n c
  have z: "\<not> isPrivateObject privGraph (Some (privObject\<lparr>providedBy := [''decorate:wrapService'']\<rparr>))"
    by simp
  show ?thesis
    using x y z by simp
qed

text \<open>
  The claim as written fails: the object below has no flag of its own, a constructor
  provider that is not exported and a decorator provider that is; the code infers it
  private, although one of its providers is marked exported.
\<close>

theorem isPrivateObject_decorator_counterexample:
  "exportedValue privObject = None \<and> isPrivateObject privGraph (Some privObject) \<and>
   \<not> specInferredPrivate privGraph privObject"
  by (simp add: exportedValue_def isPrivateObject_def specInferredPrivate_def privObject_def
      privGraph_def emptyGraph_def ctorStep_def providerMarkedExported_def ctorIn_def
      namesCtor_def entryOf_def lookupIn_def getProperty_def objectPrototypeNames_def)

text \<open>
  A provider id that is the name of an inherited member: the read of the constructors
  dictionary is truthy although the dictionary has no such key, and the object is
  inferred private. Without the dictionary the read does not happen.
\<close>

lemma isPrivateObject_inherited_name:
  "isPrivateObject privGraph (Some (privObject\<lparr>providedBy := [''toString'']\<rparr>)) \<and>
   \<not> namesCtor privGraph ''toString'' \<and>
   \<not> isPrivateObject (privGraph\<lparr>g_constructors := None\<rparr>)
        (Some (privObject\<lparr>providedBy := [''toString'']\<rparr>))"
  by (simp add: exportedValue_def isPrivateObject_def privObject_def
      privGraph_def emptyGraph_def ctorStep_def ctorIn_def
      namesCtor_def entryOf_def lookupIn_def getProperty_def objectPrototypeNames_def)

lemma set_setAdd: "set (setAdd x xs) = insert x (set xs)"
  by (auto simp: setAdd_def)

lemma set_addProvider:
  "set (addProvider g p acc) = set acc \<union> (if resolves g p then {providerModule g p} else {})"
  by (simp add: addProvider_def resolves_def Let_def set_setAdd)

lemma set_fold_providers:
  "set (fold (addProvider g) ps acc) = set acc \<union> providerModule g ` {p \<in> set ps. resolves g p}"
proof (induction ps arbitrary: acc)
  case Nil
  then show ?case by simp
next
  case (Cons p ps)
  have "{q \<in> set (p # ps). resolves g q} =
      (if resolves g p then {p} else {}) \<union> {q \<in> set ps. resolves g q}"
    by auto
  then show ?case
    by (simp add: Cons.IH set_addProvider image_Un Un_assoc)
qed

lemma set_providerModulesForObject:
  "set (providerModulesForObject g ob) = providerModule g ` {p \<in> set (providedBy ob). resolves g p}"
  by (simp add: providerModulesForObject_def set_fold_providers)

lemma providers_empty_iff:
  "(providerModulesForObject g ob = []) = (\<forall>p\<in>set (providedBy ob). \<not> resolves g p)"
proof -
  have "(providerModulesForObject g ob = []) = (set (providerModulesForObject g ob) = {})"
    by simp
  also have "\<dots> = (\<forall>p\<in>set (providedBy ob). \<not> resolves g p)"
    unfolding set_providerModulesForObject by blast
  finally show ?thesis .
qed

lemma indexObject_skip: "providerModulesForObject g ob = [] \<Longrightarrow> indexObject g ob acc = acc"
  by (simp add: indexObject_def)

lemma fold_objectIndex:
  "oi_objectIndex (fold (indexObject g) obs acc) =
     oi_objectIndex acc @ map (indexEntryFor g) (resolvable g obs)"
  by (induction obs arbitrary: acc) (auto simp: resolvable_def indexObject_def Let_def)

lemma fold_searchEntries:
  "oi_searchEntries (fold (indexObject g) obs acc) =
     oi_searchEntries acc @
     concat (map (\<lambda>ob. map (searchEntryFor g ob) (providerModulesForObject g ob)) obs)"
  by (induction obs arbitrary: acc) (auto simp: indexObject_def Let_def)

lemma set_insertBy: "set (insertBy cmp x xs) = insert x (set xs)"
  by (induction xs) auto

lemma set_sortBy: "set (sortBy cmp xs) = set xs"
  by (induction xs) (auto simp: sortBy_def set_insertBy)

text \<open>
  What holds of the index on every snapshot: the entry list holds, in order, the objects
  for which \<^verbatim>\<open>providerModulesForObject\<close> returns a module, which are those with a
  provider id that passes its test, and every search entry pairs such an object with one
  of these modules.
\<close>

lemma buildObjectIndex_entries:
  assumes "g_objects (graph s) = Some dict"
  shows "objectIndex (buildObjectIndex cmp s) =
           map (indexEntryFor (graph s))
             (filter (\<lambda>ob. \<exists>p\<in>set (providedBy ob). resolves (graph s) p) (map snd dict)) \<and>
         set (searchEntries (buildObjectIndex cmp s)) =
           {searchEntryFor (graph s) ob m | ob m.
              ob \<in> snd ` set dict \<and> m \<in> set (providerModulesForObject (graph s) ob)}"
proof -
  have r: "resolvable (graph s) obs =
      filter (\<lambda>ob. \<exists>p\<in>set (providedBy ob). resolves (graph s) p) obs" for obs
    unfolding resolvable_def by (rule filter_cong) (simp_all add: providers_empty_iff)
  have i1: "oi_objectIndex (indexObjects (graph s) (map snd dict)) =
      map (indexEntryFor (graph s)) (resolvable (graph s) (map snd dict))"
    by (simp add: indexObjects_def fold_objectIndex)
  have i2: "set (oi_searchEntries (indexObjects (graph s) (map snd dict))) =
      {searchEntryFor (graph s) ob m | ob m.
         ob \<in> snd ` set dict \<and> m \<in> set (providerModulesForObject (graph s) ob)}"
    unfolding indexObjects_def fold_searchEntries by auto
  show ?thesis
    using assms i1 i2 by (simp add: buildObjectIndex_def Let_def set_sortBy r)
qed

text \<open>
  Claim C8 fails on the code. In the snapshot below the only provider of the object is a
  constructor whose module path \<open>constructor\<close> is not a key of the module map, so in
  the words of the claim the provider id does not resolve. The read
  \<^verbatim>\<open>state.graph.modules["constructor"]\<close> is truthy all the same, by inheritance from
  \<^verbatim>\<open>Object.prototype\<close>; \<^verbatim>\<open>providerModulesForObject\<close> returns that path, and the
  index gets an entry for the object in each of its three collections.
\<close>

theorem buildObjectIndex_inherited_module:
  "\<not> specResolves strayGraph ''ctor:newService'' \<and>
   map_of (g_modules strayGraph) ''constructor'' = None \<and>
   providerModulesForObject strayGraph strayObject = [''constructor''] \<and>
   map ie_id (objectIndex (buildObjectIndex codeUnitCompare (initialState strayGraph))) =
     [''obj:Service''] \<and>
   map fst (objectRefIndex (buildObjectIndex codeUnitCompare (initialState strayGraph))) =
     [''Service||''] \<and>
   map se_modulePath (searchEntries (buildObjectIndex codeUnitCompare (initialState strayGraph))) =
     [''constructor'']"
  by code_simp

lemma demo_providers:
  "providerModulesForObject demoGraph serviceObject = [''pkg.a'']"
  "providerModulesForObject demoGraph loggerObject = [''pkg.a'']"
  "providerModulesForObject demoGraph ghostObject = []"
  by code_simp+

section \<open>Properties of the object search\<close>

lemma startsWith_prefix: "startsWith s p = prefix p s"
  by (auto simp: startsWith_def prefix_def) (metis append_eq_conv_conj)

lemma includesStr_sublist: "includesStr s q = sublist q s"
  by (induction s) (auto simp: startsWith_prefix sublist_Cons_right)

lemma dropWhile_all: "(\<forall>x\<in>set (dropWhile P xs). P x) = (\<forall>x\<in>set xs. P x)"
  by (induction xs) auto

lemma trim_empty: "(trim q = []) = (\<forall>c\<in>set q. isWhiteSpace c)"
  by (simp add: trim_def dropWhile_eq_Nil_conv dropWhile_all)

text \<open>
  Claim C6, as the code has it. The query is trimmed and lowercased; it is then empty
  exactly when the query consists of white space, and the panel shows the hint to type.
  Otherwise the matches are all the search entries whose search key contains the query
  as a substring; without a match the panel says so, and with matches it shows the first
  fifty, and states the number of matches only when there are more than fifty.
\<close>

theorem renderSearchResults_rule:
  "((\<forall>c\<in>set query. isWhiteSpace c) \<longleftrightarrow> toLowerCase (trim query) = []) \<and>
   (toLowerCase (trim query) = [] \<longrightarrow> renderSearchResults s query = TypeToSearch) \<and>
   (toLowerCase (trim query) \<noteq> [] \<longrightarrow>
      searchMatches s (toLowerCase (trim query)) =
        filter (\<lambda>e. \<exists>ps ss. se_searchKey e = ps @ toLowerCase (trim query) @ ss) (searchEntries s) \<and>
      (searchMatches s (toLowerCase (trim query)) = [] \<longrightarrow> renderSearchResults s query = NoMatches) \<and>
      (searchMatches s (toLowerCase (trim query)) \<noteq> [] \<longrightarrow>
         renderSearchResults s query =
           Rows (take 50 (searchMatches s (toLowerCase (trim query))))
             (if 50 < length (searchMatches s (toLowerCase (trim query)))
              then Some (length (searchMatches s (toLowerCase (trim query)))) else None)))"
proof -
  have "((\<forall>c\<in>set query. isWhiteSpace c) \<longleftrightarrow> toLowerCase (trim query) = [])"
    by (simp add: toLowerCase_def trim_empty)
  moreover have "searchMatches s q =
      filter (\<lambda>e. \<exists>ps ss. se_searchKey e = ps @ q @ ss) (searchEntries s)" for q
    by (simp add: searchMatches_def includesStr_sublist sublist_def)
  ultimately show ?thesis
    by (simp add: renderSearchResults_def Let_def)
qed

lemma demo_queries:
  "toLowerCase (trim '' FO '') = ''fo''" "toLowerCase (trim ''   '') = []"
  "toLowerCase (trim ''q'') = ''q''" "toLowerCase (trim ''fo'') = ''fo''"
  by code_simp+

lemma demo_matches:
  "searchMatches searchState ''fo'' = [fooEntry]" "searchMatches searchState ''q'' = []"
  "searchMatches manyState ''fo'' = replicate 51 fooEntry"
  by (simp_all add: searchMatches_def searchState_def manyState_def fooEntry_def barEntry_def
      startsWith_def)

theorem renderSearchResults_rule_witness:
  "renderSearchResults searchState '' FO '' = Rows [fooEntry] None \<and>
   renderSearchResults searchState ''   '' = TypeToSearch \<and>
   renderSearchResults searchState ''q'' = NoMatches \<and>
   renderSearchResults manyState ''fo'' = Rows (replicate 50 fooEntry) (Some 51)"
  using renderSearchResults_rule [of "'' FO ''" searchState]
    renderSearchResults_rule [of "''   ''" searchState]
    renderSearchResults_rule [of "''q''" searchState]
    renderSearchResults_rule [of "''fo''" manyState]
  by (simp add: demo_queries demo_matches)

text \<open>
  The claim as written fails on the number of matches: one entry matches the query
  below, it is displayed, and the panel states no number.
\<close>

theorem renderSearchResults_count_counterexample:
  "searchMatches searchState ''fo'' = [fooEntry] \<and>
   renderSearchResults searchState ''fo'' = Rows [fooEntry] None \<and>
   reportedCount (renderSearchResults searchState ''fo'') = None"
  by (simp add: renderSearchResults_def demo_queries demo_matches reportedCount_def)

section \<open>Properties of the visibility resolver\<close>

lemma walkVisible_result:
  assumes "walkVisible s p = Some r"
  shows "r = ROOT_KEY \<or> (r \<noteq> [] \<and> nodeVisible s r)"
  using assms
  by (induction s p r rule: walkVisible.raw_induct [rotated 1, consumes 1])
     (auto split: if_splits)

lemma walkVisible_visible: "p \<noteq> [] \<Longrightarrow> nodeVisible s p \<Longrightarrow> walkVisible s p = Some p"
  by (subst walkVisible.simps) simp

lemma ROOT_KEY_nonempty: "ROOT_KEY \<noteq> []"
  by (simp add: ROOT_KEY_def)

lemma visibleStandIn_result:
  "visibleStandIn s p = Some r \<Longrightarrow> r \<noteq> [] \<and> (r = ROOT_KEY \<or> nodeVisible s r)"
  using walkVisible_result [of s p r]
  by (auto simp: visibleStandIn_def ROOT_KEY_nonempty split: if_splits)

lemma visibleStandIn_idem: "visibleStandIn s p = Some r \<Longrightarrow> visibleStandIn s r = Some r"
  using visibleStandIn_result [of s p r]
  by (auto simp: visibleStandIn_def walkVisible_visible)

lemma walkVisible_terminates: "chainEnds n s p \<Longrightarrow> \<exists>r. walkVisible s p = Some r"
proof (induction n arbitrary: p)
  case 0
  then show ?case by (subst walkVisible.simps) auto
next
  case (Suc n)
  then show ?case by (subst walkVisible.simps) auto
qed

lemma cacheSound_lookup:
  "cacheSound s cache \<Longrightarrow> map_of cache k = Some v \<Longrightarrow> visibleStandIn s k = Some v"
  by (auto simp: cacheSound_def list_all_iff dest!: map_of_SomeD)

lemma cacheSound_update:
  "cacheSound s cache \<Longrightarrow> visibleStandIn s k = Some v \<Longrightarrow> cacheSound s (AList.update k v cache)"
  by (induction cache) (auto simp: cacheSound_def)

lemma resolveVisible_Some:
  assumes "cacheSound s cache" "resolveVisible s cache p = Some (r, cache')"
  shows "visibleStandIn s p = Some r \<and> cacheSound s cache'"
  using assms
  by (auto simp: resolveVisible_def visibleStandIn_def cacheSound_update
      split: if_splits option.splits dest: cacheSound_lookup)

lemma resolveVisible_None:
  assumes "cacheSound s cache" "resolveVisible s cache p = None"
  shows "visibleStandIn s p = None"
  using assms
  by (auto simp: resolveVisible_def visibleStandIn_def split: if_splits option.splits)

lemma resolveVisible_total:
  assumes "cacheSound s cache" "visibleStandIn s p = Some r"
  shows "\<exists>cache'. resolveVisible s cache p = Some (r, cache')"
proof (cases "resolveVisible s cache p")
  case None
  then show ?thesis using assms resolveVisible_None by fastforce
next
  case (Some a)
  then show ?thesis using assms resolveVisible_Some [of s cache p "fst a" "snd a"]
    by (cases a) simp
qed

text \<open>
  Claim C4. In every state (so for every visibility of the nodes, whatever expansion set
  produced it), and with every memo table that holds only results of the resolver (the
  empty table of a rebuild and every table that follows from it): when
  \<^verbatim>\<open>resolveVisible\<close> returns \<open>r\<close> for a path, it returns \<open>r\<close> for \<open>r\<close>, with the
  table it left as with none. It does return when the parent links from the path reach,
  in some number of steps, a visible node or a module without a parent.
\<close>

theorem resolveVisible_idempotent:
  "(cacheSound s cache \<and> resolveVisible s cache p = Some (r, cache') \<longrightarrow>
      cacheSound s cache' \<and> (\<exists>cache''. resolveVisible s cache' r = Some (r, cache''))) \<and>
   (visibleStandIn s p = Some r \<longrightarrow> visibleStandIn s r = Some r) \<and>
   (cacheSound s cache \<and> chainEnds n s p \<longrightarrow> (\<exists>r' c'. resolveVisible s cache p = Some (r', c')))"
proof -
  have a: "cacheSound s cache' \<and> (\<exists>cache''. resolveVisible s cache' r = Some (r, cache''))"
    if h: "cacheSound s cache" "resolveVisible s cache p = Some (r, cache')"
  proof -
    from resolveVisible_Some [OF h] have v: "visibleStandIn s p = Some r" and c: "cacheSound s cache'"
      by simp_all
    from resolveVisible_total [OF c visibleStandIn_idem [OF v]] c show ?thesis by simp
  qed
  have b: "\<exists>r' c'. resolveVisible s cache p = Some (r', c')"
    if h: "cacheSound s cache" "chainEnds n s p"
  proof -
    from walkVisible_terminates [OF h(2)] have "\<exists>r'. visibleStandIn s p = Some r'"
      by (simp add: visibleStandIn_def)
    then obtain r' where "visibleStandIn s p = Some r'" ..
    from resolveVisible_total [OF h(1) this] show ?thesis by blast
  qed
  show ?thesis
    using a b visibleStandIn_idem by blast
qed

theorem resolveVisible_idempotent_witness:
  "resolveVisible demoVisible [] ''pkg.b.c'' = Some (''pkg.b'', [(''pkg.b.c'', ''pkg.b'')]) \<and>
   (\<exists>cache. resolveVisible demoVisible [(''pkg.b.c'', ''pkg.b'')] ''pkg.b'' = Some (''pkg.b'', cache)) \<and>
   visibleStandIn demoVisible ''pkg.b.c'' = Some ''pkg.b'' \<and>
   visibleStandIn demoVisible ''pkg.b'' = Some ''pkg.b''"
proof -
  have h1: "cacheSound demoVisible []"
    by (simp add: cacheSound_def)
  have h2: "resolveVisible demoVisible [] ''pkg.b.c'' = Some (''pkg.b'', [(''pkg.b.c'', ''pkg.b'')])"
    by code_simp
  have h3: "visibleStandIn demoVisible ''pkg.b.c'' = Some ''pkg.b''"
    by code_simp
  have h4: "chainEnds 1 demoVisible ''pkg.b.c''"
    by code_simp
  show ?thesis
    using resolveVisible_idempotent [of demoVisible "[]" "''pkg.b.c''" "''pkg.b''"
        "[(''pkg.b.c'', ''pkg.b'')]" 1] h1 h2 h3 h4
    by blast
qed

section \<open>Properties of the dependency aggregation\<close>

lemma providerEdges_Cons:
  "providerEdges s f (e # es) =
     (case visibleStandIn s (fst e) of
         None \<Rightarrow> []
       | Some t \<Rightarrow> if t = ROOT_KEY \<or> t = f then [] else [(f, t, snd e)]) @ providerEdges s f es"
  by (simp add: providerEdges_def)

lemma providerStep_Some:
  assumes "cacheSound s (visibleCache a)" "providerStep s f e a = Some a1"
  shows "cacheSound s (visibleCache a1) \<and>
         visibleDeps a1 = fold depOf (providerEdges s f [e]) (visibleDeps a) \<and>
         objectsByEdge a1 = fold labelsOf (providerEdges s f [e]) (objectsByEdge a) \<and>
         (\<exists>t. visibleStandIn s (fst e) = Some t)"
proof -
  from assms(2) obtain t cache where r: "resolveVisible s (visibleCache a) (fst e) = Some (t, cache)"
    by (auto simp: providerStep_def split: option.splits)
  from resolveVisible_Some [OF assms(1) r] have v: "visibleStandIn s (fst e) = Some t"
    and c: "cacheSound s cache" by simp_all
  from visibleStandIn_result [OF v] have "t \<noteq> []" by simp
  then show ?thesis
    using assms(2) r v c
    by (auto simp: providerStep_def providerEdges_def depOf_def labelsOf_def split: if_splits)
qed

lemma forEachM_providerStep:
  assumes "cacheSound s (visibleCache a)" "forEachM (providerStep s f) ps a = Some a'"
  shows "cacheSound s (visibleCache a') \<and>
         visibleDeps a' = fold depOf (providerEdges s f ps) (visibleDeps a) \<and>
         objectsByEdge a' = fold labelsOf (providerEdges s f ps) (objectsByEdge a) \<and>
         (\<forall>e\<in>set ps. \<exists>t. visibleStandIn s (fst e) = Some t)"
  using assms
proof (induction ps arbitrary: a)
  case Nil
  then show ?case by (simp add: providerEdges_def)
next
  case (Cons e ps)
  from Cons.prems(2) obtain a1 where s1: "providerStep s f e a = Some a1"
    and rest: "forEachM (providerStep s f) ps a1 = Some a'"
    by (auto split: option.splits)
  note h = providerStep_Some [OF Cons.prems(1) s1]
  from h have c1: "cacheSound s (visibleCache a1)" by simp
  note ih = Cons.IH [OF c1 rest]
  have split: "providerEdges s f (e # ps) = providerEdges s f [e] @ providerEdges s f ps"
    by (simp add: providerEdges_def)
  show ?case
    using h ih by (simp add: split)
qed

lemma consumerStep_Some:
  assumes "cacheSound s (visibleCache a)" "consumerStep s e a = Some a1"
  shows "cacheSound s (visibleCache a1) \<and>
         visibleDeps a1 = fold depOf (resolvedEdges s [e]) (visibleDeps a) \<and>
         objectsByEdge a1 = fold labelsOf (resolvedEdges s [e]) (objectsByEdge a) \<and>
         (\<exists>f. visibleStandIn s (fst e) = Some f \<and>
            (f \<noteq> ROOT_KEY \<longrightarrow> (\<forall>p\<in>set (snd e). \<exists>t. visibleStandIn s (fst p) = Some t)))"
proof -
  from assms(2) obtain f cache where r: "resolveVisible s (visibleCache a) (fst e) = Some (f, cache)"
    by (auto simp: consumerStep_def split: option.splits)
  from resolveVisible_Some [OF assms(1) r] have v: "visibleStandIn s (fst e) = Some f"
    and c: "cacheSound s cache" by simp_all
  from visibleStandIn_result [OF v] have ne: "f \<noteq> []" by simp
  show ?thesis
  proof (cases "f = ROOT_KEY")
    case True
    then show ?thesis
      using assms(2) r v c by (auto simp: consumerStep_def resolvedEdges_def)
  next
    case False
    then have run: "forEachM (providerStep s f) (snd e) (a\<lparr>visibleCache := cache\<rparr>) = Some a1"
      using assms(2) r ne by (simp add: consumerStep_def)
    have "cacheSound s (visibleCache (a\<lparr>visibleCache := cache\<rparr>))"
      using c by simp
    from forEachM_providerStep [OF this run] show ?thesis
      using v False by (simp add: resolvedEdges_def)
  qed
qed

lemma forEachM_consumerStep:
  assumes "cacheSound s (visibleCache a)" "forEachM (consumerStep s) adjacency a = Some a'"
  shows "cacheSound s (visibleCache a') \<and>
         visibleDeps a' = fold depOf (resolvedEdges s adjacency) (visibleDeps a) \<and>
         objectsByEdge a' = fold labelsOf (resolvedEdges s adjacency) (objectsByEdge a) \<and>
         (\<forall>e\<in>set adjacency. \<exists>f. visibleStandIn s (fst e) = Some f \<and>
            (f \<noteq> ROOT_KEY \<longrightarrow> (\<forall>p\<in>set (snd e). \<exists>t. visibleStandIn s (fst p) = Some t)))"
  using assms
proof (induction adjacency arbitrary: a)
  case Nil
  then show ?case by (simp add: resolvedEdges_def)
next
  case (Cons e es)
  from Cons.prems(2) obtain a1 where s1: "consumerStep s e a = Some a1"
    and rest: "forEachM (consumerStep s) es a1 = Some a'"
    by (auto split: option.splits)
  note h = consumerStep_Some [OF Cons.prems(1) s1]
  from h have c1: "cacheSound s (visibleCache a1)" by simp
  note ih = Cons.IH [OF c1 rest]
  have split: "resolvedEdges s (e # es) = resolvedEdges s [e] @ resolvedEdges s es"
    by (simp add: resolvedEdges_def)
  show ?case
    using h ih by (simp add: split)
qed

lemma depStep_Some:
  assumes "cacheSound s (visibleCache a)" "depStep s f d a = Some a1"
  shows "cacheSound s (visibleCache a1) \<and>
         visibleDeps a1 = fold depOf (providerEdges s f [(d, [])]) (visibleDeps a) \<and>
         objectsByEdge a1 = objectsByEdge a"
proof -
  from assms(2) obtain t cache where r: "resolveVisible s (visibleCache a) d = Some (t, cache)"
    by (auto simp: depStep_def split: option.splits)
  from resolveVisible_Some [OF assms(1) r] have v: "visibleStandIn s d = Some t"
    and c: "cacheSound s cache" by simp_all
  from visibleStandIn_result [OF v] have "t \<noteq> []" by simp
  then show ?thesis
    using assms(2) r v c
    by (auto simp: depStep_def providerEdges_def depOf_def split: if_splits)
qed

lemma forEachM_depStep:
  assumes "cacheSound s (visibleCache a)" "forEachM (depStep s f) ds a = Some a'"
  shows "cacheSound s (visibleCache a') \<and>
         visibleDeps a' = fold depOf (providerEdges s f (map (\<lambda>dep. (dep, [])) ds)) (visibleDeps a) \<and>
         objectsByEdge a' = objectsByEdge a"
  using assms
proof (induction ds arbitrary: a)
  case Nil
  then show ?case by (simp add: providerEdges_def)
next
  case (Cons d ds)
  from Cons.prems(2) obtain a1 where s1: "depStep s f d a = Some a1"
    and rest: "forEachM (depStep s f) ds a1 = Some a'"
    by (auto split: option.splits)
  note h = depStep_Some [OF Cons.prems(1) s1]
  from h have c1: "cacheSound s (visibleCache a1)" by simp
  note ih = Cons.IH [OF c1 rest]
  have split: "providerEdges s f ((d, []) # map (\<lambda>dep. (dep, [])) ds) =
      providerEdges s f [(d, [])] @ providerEdges s f (map (\<lambda>dep. (dep, [])) ds)"
    by (simp add: providerEdges_def)
  show ?case
    using h ih by (simp add: split)
qed

lemma moduleStep_Some:
  assumes "cacheSound s (visibleCache a)" "moduleStep s e a = Some a1"
  shows "cacheSound s (visibleCache a1) \<and>
         visibleDeps a1 = fold depOf (resolvedEdges s (fallbackAdjacency [e])) (visibleDeps a) \<and>
         objectsByEdge a1 = objectsByEdge a"
proof -
  from assms(2) obtain f cache where r: "resolveVisible s (visibleCache a) (fst e) = Some (f, cache)"
    by (auto simp: moduleStep_def split: option.splits)
  from resolveVisible_Some [OF assms(1) r] have v: "visibleStandIn s (fst e) = Some f"
    and c: "cacheSound s cache" by simp_all
  from visibleStandIn_result [OF v] have ne: "f \<noteq> []" by simp
  show ?thesis
  proof (cases "f = ROOT_KEY")
    case True
    then show ?thesis
      using assms(2) r v c by (auto simp: moduleStep_def resolvedEdges_def fallbackAdjacency_def)
  next
    case False
    then have run: "forEachM (depStep s f) (snd e) (a\<lparr>visibleCache := cache\<rparr>) = Some a1"
      using assms(2) r ne by (simp add: moduleStep_def)
    have "cacheSound s (visibleCache (a\<lparr>visibleCache := cache\<rparr>))"
      using c by simp
    from forEachM_depStep [OF this run] show ?thesis
      using v False by (simp add: resolvedEdges_def fallbackAdjacency_def)
  qed
qed

lemma forEachM_moduleStep:
  assumes "cacheSound s (visibleCache a)" "forEachM (moduleStep s) deps a = Some a'"
  shows "cacheSound s (visibleCache a') \<and>
         visibleDeps a' = fold depOf (resolvedEdges s (fallbackAdjacency deps)) (visibleDeps a) \<and>
         objectsByEdge a' = objectsByEdge a"
  using assms
proof (induction deps arbitrary: a)
  case Nil
  then show ?case by (simp add: resolvedEdges_def fallbackAdjacency_def)
next
  case (Cons e es)
  from Cons.prems(2) obtain a1 where s1: "moduleStep s e a = Some a1"
    and rest: "forEachM (moduleStep s) es a1 = Some a'"
    by (auto split: option.splits)
  note h = moduleStep_Some [OF Cons.prems(1) s1]
  from h have c1: "cacheSound s (visibleCache a1)" by simp
  note ih = Cons.IH [OF c1 rest]
  have split: "resolvedEdges s (fallbackAdjacency (e # es)) =
      resolvedEdges s (fallbackAdjacency [e]) @ resolvedEdges s (fallbackAdjacency es)"
    by (simp add: resolvedEdges_def fallbackAdjacency_def)
  show ?case
    using h ih by (simp add: split)
qed

lemma set_fold_setAdd: "set (fold setAdd xs acc) = set acc \<union> set xs"
  by (induction xs arbitrary: acc) (auto simp: set_setAdd)

lemma distinct_fold_setAdd: "distinct acc \<Longrightarrow> distinct (fold setAdd xs acc)"
  by (induction xs arbitrary: acc) (auto simp: setAdd_def)

lemma map_of_addAll:
  "map_of (addAll k vs m) k' =
     (if k' = k then Some (fold setAdd vs (case map_of m k of None \<Rightarrow> [] | Some old \<Rightarrow> old))
      else map_of m k')"
  by (simp add: addAll_def update_conv' split: option.splits)

lemma setsDistinct_lookup: "setsDistinct m \<Longrightarrow> map_of m k = Some vs \<Longrightarrow> distinct vs"
  by (auto simp: setsDistinct_def dest!: map_of_SomeD)

lemma update_values:
  "\<forall>e\<in>set m. P (snd e) \<Longrightarrow> P v \<Longrightarrow> \<forall>e\<in>set (AList.update k v m). P (snd e)"
  by (induction m) auto

lemma setsDistinct_addAll:
  assumes "setsDistinct m"
  shows "setsDistinct (addAll k vs m)"
proof -
  let ?old = "case map_of m k of None \<Rightarrow> [] | Some old \<Rightarrow> old"
  have "distinct ?old"
    using assms by (auto split: option.splits dest: setsDistinct_lookup)
  then have d: "distinct (fold setAdd vs ?old)"
    by (rule distinct_fold_setAdd)
  have eq: "addAll k vs m = AList.update k (fold setAdd vs ?old) m"
    by (simp add: addAll_def split: option.splits)
  have k: "distinct (map fst (AList.update k (fold setAdd vs ?old) m))"
    using assms by (simp add: setsDistinct_def distinct_update)
  have "\<forall>e\<in>set m. distinct (snd e)"
    using assms by (simp add: setsDistinct_def)
  then have "\<forall>e\<in>set (AList.update k (fold setAdd vs ?old) m). distinct (snd e)"
    using d by (rule update_values)
  with k show ?thesis
    unfolding eq setsDistinct_def by simp
qed

lemma setsDistinct_fold:
  "setsDistinct m \<Longrightarrow> setsDistinct (fold (\<lambda>e. addAll (kf e) (vf e)) es m)"
proof (induction es arbitrary: m)
  case Nil
  then show ?case by simp
next
  case (Cons e es)
  from Cons.prems have "setsDistinct (addAll (kf e) (vf e) m)"
    by (rule setsDistinct_addAll)
  then have "setsDistinct (fold (\<lambda>e. addAll (kf e) (vf e)) es (addAll (kf e) (vf e) m))"
    by (rule Cons.IH)
  then show ?case by simp
qed

lemma fold_addAll_dom:
  "(map_of (fold (\<lambda>e. addAll (kf e) (vf e)) es m) k = None) =
     (map_of m k = None \<and> (\<forall>e\<in>set es. kf e \<noteq> k))"
  by (induction es arbitrary: m) (auto simp: map_of_addAll)

lemma fold_addAll_values:
  "valuesAt (fold (\<lambda>e. addAll (kf e) (vf e)) es m) k =
     valuesAt m k \<union> (\<Union>e\<in>{e \<in> set es. kf e = k}. set (vf e))"
proof (induction es arbitrary: m)
  case Nil
  then show ?case by simp
next
  case (Cons e es)
  have "valuesAt (addAll (kf e) (vf e) m) k =
      valuesAt m k \<union> (if kf e = k then set (vf e) else {})"
    by (auto simp: valuesAt_def map_of_addAll set_fold_setAdd split: option.splits)
  then show ?case
    using Cons.IH [of "addAll (kf e) (vf e) m"] by auto
qed

lemma providerEdges_iff:
  "((f', t, ls) \<in> set (providerEdges s f ps)) =
     (f' = f \<and> (\<exists>p. (p, ls) \<in> set ps \<and> visibleStandIn s p = Some t \<and> t \<noteq> ROOT_KEY \<and> t \<noteq> f))"
  by (induction ps) (auto simp: providerEdges_def split: option.splits)

lemma resolvedEdges_iff:
  "((f, t, ls) \<in> set (resolvedEdges s adjacency)) =
     (\<exists>c ps p. (c, ps) \<in> set adjacency \<and> (p, ls) \<in> set ps \<and>
        visibleStandIn s c = Some f \<and> visibleStandIn s p = Some t \<and>
        f \<noteq> ROOT_KEY \<and> t \<noteq> ROOT_KEY \<and> t \<noteq> f)"
proof (induction adjacency)
  case Nil
  then show ?case by (simp add: resolvedEdges_def)
next
  case (Cons e es)
  have split: "resolvedEdges s (e # es) = resolvedEdges s [e] @ resolvedEdges s es"
    by (simp add: resolvedEdges_def)
  have one: "((f, t, ls) \<in> set (resolvedEdges s [e])) =
      (\<exists>p. (p, ls) \<in> set (snd e) \<and>
        visibleStandIn s (fst e) = Some f \<and> visibleStandIn s p = Some t \<and>
        f \<noteq> ROOT_KEY \<and> t \<noteq> ROOT_KEY \<and> t \<noteq> f)"
  proof (cases "visibleStandIn s (fst e)")
    case None
    then show ?thesis by (simp add: resolvedEdges_def)
  next
    case (Some f0)
    show ?thesis
    proof (cases "f0 = ROOT_KEY")
      case True
      then show ?thesis using Some by (auto simp: resolvedEdges_def)
    next
      case False
      then have "resolvedEdges s [e] = providerEdges s f0 (snd e)"
        using Some by (simp add: resolvedEdges_def)
      then show ?thesis
        using Some False by (auto simp: providerEdges_iff)
    qed
  qed
  have "((f, t, ls) \<in> set (resolvedEdges s (e # es))) =
      ((f, t, ls) \<in> set (resolvedEdges s [e]) \<or> (f, t, ls) \<in> set (resolvedEdges s es))"
    by (simp add: split)
  also have "\<dots> =
      ((\<exists>p. (p, ls) \<in> set (snd e) \<and>
        visibleStandIn s (fst e) = Some f \<and> visibleStandIn s p = Some t \<and>
        f \<noteq> ROOT_KEY \<and> t \<noteq> ROOT_KEY \<and> t \<noteq> f) \<or>
       (\<exists>c ps p. (c, ps) \<in> set es \<and> (p, ls) \<in> set ps \<and>
        visibleStandIn s c = Some f \<and> visibleStandIn s p = Some t \<and>
        f \<noteq> ROOT_KEY \<and> t \<noteq> ROOT_KEY \<and> t \<noteq> f))"
    by (simp only: one Cons.IH)
  also have "\<dots> =
      (\<exists>c ps p. (c, ps) \<in> set (e # es) \<and> (p, ls) \<in> set ps \<and>
        visibleStandIn s c = Some f \<and> visibleStandIn s p = Some t \<and>
        f \<noteq> ROOT_KEY \<and> t \<noteq> ROOT_KEY \<and> t \<noteq> f)"
    by (cases e) (simp, blast)
  finally show ?case .
qed

lemma takeWhile_edgeKey:
  "CHR ''>'' \<notin> set f \<Longrightarrow> takeWhile (\<lambda>c. c \<noteq> CHR ''>'') (edgeKey f t) = f @ ''-''"
  by (induction f) (auto simp: edgeKey_def)

lemma edgeKey_inject:
  assumes "CHR ''>'' \<notin> set f" "CHR ''>'' \<notin> set f'" "edgeKey f t = edgeKey f' t'"
  shows "f = f' \<and> t = t'"
proof -
  have "f @ ''-'' = f' @ ''-''"
    using takeWhile_edgeKey [OF assms(1), of t] takeWhile_edgeKey [OF assms(2), of t'] assms(3)
    by simp
  then have "f = f'" by simp
  then show ?thesis using assms(3) by (simp add: edgeKey_def)
qed

lemma fold_update_sorted:
  "distinct (map fst xs) \<Longrightarrow>
   map_of (fold (\<lambda>entry objects. AList.update (fst entry) (sort (snd entry)) objects) xs acc) k =
     (case map_of xs k of Some v \<Rightarrow> Some (sort v) | None \<Rightarrow> map_of acc k)"
proof (induction xs arbitrary: acc)
  case Nil
  then show ?case by simp
next
  case (Cons e es)
  then have "map_of es (fst e) = None"
    by (cases e) (auto simp: map_of_eq_None_iff)
  then show ?case
    using Cons by (cases e) (auto simp: update_conv' split: option.splits)
qed

lemma distinct_fold_update:
  "distinct (map fst acc) \<Longrightarrow>
   distinct (map fst (fold (\<lambda>entry objects. AList.update (fst entry) (g entry) objects) xs acc))"
  by (induction xs arbitrary: acc) (auto simp: distinct_update)

lemma sortedObjects_lookup:
  "distinct (map fst byEdge) \<Longrightarrow> map_of (sortedObjects byEdge) k = map_option sort (map_of byEdge k)"
  by (simp add: sortedObjects_def fold_update_sorted split: option.splits)

lemma sortedObjects_distinct: "distinct (map fst (sortedObjects byEdge))"
  by (simp add: sortedObjects_def distinct_fold_update)

lemma setsDistinct_Nil: "setsDistinct []"
  by (simp add: setsDistinct_def)

lemma fold_addAll_Nil:
  "(fold (\<lambda>e. addAll (kf e) (vf e)) es [] = []) = (es = [])"
proof (cases es)
  case Nil
  then show ?thesis by simp
next
  case (Cons e es')
  have "map_of (fold (\<lambda>e. addAll (kf e) (vf e)) es []) (kf e) \<noteq> None"
    unfolding fold_addAll_dom using Cons by simp
  then show ?thesis using Cons by auto
qed

lemma sort_set_unique:
  "distinct ls \<Longrightarrow> set ls = set ms \<Longrightarrow> sort ls = sort (remdups ms)"
  by (rule sorted_distinct_set_unique) simp_all

lemma labels_lookup:
  "map_of (sortedObjects (fold labelsOf (resolvedEdges s (moduleDepObjects s)) [])) key =
     (if contributions s key = [] then None
      else Some (sort (remdups (concat (contributions s key)))))"
proof -
  let ?E = "resolvedEdges s (moduleDepObjects s)"
  let ?kf = "\<lambda>e::string \<times> string \<times> string list. edgeKey (fst e) (fst (snd e))"
  let ?vf = "\<lambda>e::string \<times> string \<times> string list. snd (snd e)"
  let ?m = "fold (\<lambda>e. addAll (?kf e) (?vf e)) ?E []"
  have eq: "fold labelsOf ?E [] = ?m"
    by (simp add: labelsOf_def [abs_def])
  have sd: "setsDistinct ?m"
    by (rule setsDistinct_fold) (rule setsDistinct_Nil)
  then have dk: "distinct (map fst ?m)" by (simp add: setsDistinct_def)
  have none: "(map_of ?m key = None) = (contributions s key = [])"
    unfolding fold_addAll_dom by (auto simp: contributions_def filter_empty_conv)
  have vals: "valuesAt ?m key = set (concat (contributions s key))"
    unfolding fold_addAll_values by (auto simp: contributions_def valuesAt_def)
  show ?thesis
  proof (cases "map_of ?m key")
    case None
    then show ?thesis
      using none by (simp add: eq sortedObjects_lookup [OF dk])
  next
    case (Some ls)
    have "distinct ls" using sd Some by (rule setsDistinct_lookup)
    moreover have "set ls = set (concat (contributions s key))"
      using vals Some by (simp add: valuesAt_def)
    ultimately have "sort ls = sort (remdups (concat (contributions s key)))"
      by (rule sort_set_unique)
    then show ?thesis
      using none Some by (simp add: eq sortedObjects_lookup [OF dk])
  qed
qed

lemma deps_values:
  "valuesAt (fold depOf es []) f = {t. \<exists>ls. (f, t, ls) \<in> set es}"
proof -
  have eq: "fold depOf es [] = fold (\<lambda>e. addAll (fst e) [fst (snd e)]) es []"
    by (simp add: depOf_def [abs_def])
  show ?thesis
    unfolding eq fold_addAll_values by (force simp: valuesAt_def)
qed

lemma deps_distinct: "setsDistinct (fold depOf es [])"
proof -
  have eq: "fold depOf es [] = fold (\<lambda>e. addAll (fst e) [fst (snd e)]) es []"
    by (simp add: depOf_def [abs_def])
  show ?thesis unfolding eq by (rule setsDistinct_fold) (rule setsDistinct_Nil)
qed

lemma deps_Nil: "(fold depOf es [] = []) = (es = [])"
proof -
  have eq: "fold depOf es [] = fold (\<lambda>e. addAll (fst e) [fst (snd e)]) es []"
    by (simp add: depOf_def [abs_def])
  show ?thesis unfolding eq by (rule fold_addAll_Nil)
qed

lemma buildVisibleModuleDeps_shape:
  assumes "buildVisibleModuleDeps s = Some vd"
  shows "vd_objects vd = sortedObjects (fold labelsOf (resolvedEdges s (moduleDepObjects s)) []) \<and>
         vd_deps vd =
           (if resolvedEdges s (moduleDepObjects s) = []
            then fold depOf (resolvedEdges s (fallbackAdjacency (moduleDeps s))) []
            else fold depOf (resolvedEdges s (moduleDepObjects s)) []) \<and>
         (\<forall>e\<in>set (moduleDepObjects s). \<exists>f. visibleStandIn s (fst e) = Some f \<and>
            (f \<noteq> ROOT_KEY \<longrightarrow> (\<forall>p\<in>set (snd e). \<exists>t. visibleStandIn s (fst p) = Some t)))"
proof -
  let ?a0 = "\<lparr> visibleDeps = [], objectsByEdge = [], visibleCache = [] \<rparr>"
  have c0: "cacheSound s (visibleCache ?a0)" by (simp add: cacheSound_def)
  from assms obtain a where first: "forEachM (consumerStep s) (moduleDepObjects s) ?a0 = Some a"
    by (auto simp: buildVisibleModuleDeps_def split: option.splits)
  note f = forEachM_consumerStep [OF c0 first]
  from f have d: "visibleDeps a = fold depOf (resolvedEdges s (moduleDepObjects s)) []"
    and l: "objectsByEdge a = fold labelsOf (resolvedEdges s (moduleDepObjects s)) []"
    and c: "cacheSound s (visibleCache a)" by simp_all
  show ?thesis
  proof (cases "resolvedEdges s (moduleDepObjects s) = []")
    case True
    then have z: "visibleDeps a = []" using d by simp
    with assms first obtain a' where second: "forEachM (moduleStep s) (moduleDeps s) a = Some a'"
      and out: "vd = \<lparr> vd_deps = visibleDeps a', vd_objects = sortedObjects (objectsByEdge a') \<rparr>"
      by (auto simp: buildVisibleModuleDeps_def split: option.splits)
    from forEachM_moduleStep [OF c second] show ?thesis
      using f True z l out by simp
  next
    case False
    then have "visibleDeps a \<noteq> []" using d deps_Nil by simp
    with assms first have "vd = \<lparr> vd_deps = visibleDeps a, vd_objects = sortedObjects (objectsByEdge a) \<rparr>"
      by (auto simp: buildVisibleModuleDeps_def split: option.splits)
    then show ?thesis
      using f False d l by simp
  qed
qed

text \<open>
  What the aggregation returns, whenever it returns: the resolver has returned for every
  consumer of the adjacency and, unless the consumer resolved to the root, for each of its
  providers. The kept pairs \<open>resolvedEdges\<close> are exactly the raw pairs whose consumer and
  provider resolve to two different nodes, neither of them the root, each with the labels
  of the raw pair. If there is a kept pair, the targets of a visible node are exactly the
  nodes that a kept pair joins it to (if there is none, they come from the coarser
  adjacency in the same way). Every node is a key once and every target is listed once.
  The labels under an edge key are the concatenation of the label sets of all kept
  pairs with that key, without duplicates and sorted; an edge key stands for one pair of
  nodes as long as no path contains the character \<open>>\<close>.
\<close>

lemma buildVisibleModuleDeps_edges:
  assumes "buildVisibleModuleDeps s = Some vd"
  shows "(\<forall>e\<in>set (moduleDepObjects s). \<exists>f. visibleStandIn s (fst e) = Some f \<and>
            (f \<noteq> ROOT_KEY \<longrightarrow> (\<forall>p\<in>set (snd e). \<exists>t. visibleStandIn s (fst p) = Some t))) \<and>
         (\<forall>f t ls. ((f, t, ls) \<in> set (resolvedEdges s (moduleDepObjects s))) =
            (\<exists>c ps p. (c, ps) \<in> set (moduleDepObjects s) \<and> (p, ls) \<in> set ps \<and>
               visibleStandIn s c = Some f \<and> visibleStandIn s p = Some t \<and>
               f \<noteq> ROOT_KEY \<and> t \<noteq> ROOT_KEY \<and> t \<noteq> f)) \<and>
         (resolvedEdges s (moduleDepObjects s) \<noteq> [] \<longrightarrow>
            (\<forall>f. valuesAt (vd_deps vd) f =
               {t. \<exists>ls. (f, t, ls) \<in> set (resolvedEdges s (moduleDepObjects s))})) \<and>
         (resolvedEdges s (moduleDepObjects s) = [] \<longrightarrow>
            (\<forall>f. valuesAt (vd_deps vd) f =
               {t. \<exists>ls. (f, t, ls) \<in> set (resolvedEdges s (fallbackAdjacency (moduleDeps s)))})) \<and>
         setsDistinct (vd_deps vd) \<and>
         distinct (map fst (vd_objects vd)) \<and>
         (\<forall>key. map_of (vd_objects vd) key =
            (if contributions s key = [] then None
             else Some (sort (remdups (concat (contributions s key)))))) \<and>
         (\<forall>f t. CHR ''>'' \<notin> set f \<and>
            (\<forall>e\<in>set (resolvedEdges s (moduleDepObjects s)). CHR ''>'' \<notin> set (fst e)) \<longrightarrow>
            contributions s (edgeKey f t) = pairContributions s f t)"
proof -
  note sh = buildVisibleModuleDeps_shape [OF assms]
  have inj: "contributions s (edgeKey f t) = pairContributions s f t"
    if "CHR ''>'' \<notin> set f"
      "\<forall>e\<in>set (resolvedEdges s (moduleDepObjects s)). CHR ''>'' \<notin> set (fst e)" for f t
  proof -
    have "filter (\<lambda>e. edgeKey (fst e) (fst (snd e)) = edgeKey f t) (resolvedEdges s (moduleDepObjects s)) =
        filter (\<lambda>e. fst e = f \<and> fst (snd e) = t) (resolvedEdges s (moduleDepObjects s))"
      using that by (intro filter_cong refl) (auto dest: edgeKey_inject)
    then show ?thesis by (simp add: contributions_def pairContributions_def)
  qed
  show ?thesis
    using sh inj
    by (simp add: resolvedEdges_iff deps_values deps_distinct sortedObjects_distinct labels_lookup)
qed

lemma demo_build: "buildVisibleModuleDeps demoVisible = Some demoDeps"
  by code_simp

lemma demo_resolved:
  "resolvedEdges demoVisible (moduleDepObjects demoVisible) =
     [(''pkg.b'', ''pkg.a'', [''Service (name=X)'']),
      (''pkg.b'', ''pkg.a'', [''Service (name=X)'', ''Logger''])]"
  by code_simp

lemma demo_contributions:
  "contributions demoVisible ''pkg.b->pkg.a'' = [[''Service (name=X)''], [''Service (name=X)'', ''Logger'']]"
  "pairContributions demoVisible ''pkg.b'' ''pkg.a'' = [[''Service (name=X)''], [''Service (name=X)'', ''Logger'']]"
  by code_simp+

lemma col_load:
  "moduleDepObjects colState = [(''a'', [(''b->c'', [''T1''])]), (''a->b'', [(''c'', [''T2''])])]"
  by code_simp

lemma col_update:
  "map_option
     (\<lambda>u. (gu_deps u, map (\<lambda>e. (fromModule e, toModule e, objects e)) (gu_edges u),
           pairContributions (gu_state u) ''a'' ''b->c'',
           pairContributions (gu_state u) ''a->b'' ''c''))
     (updateGraph 2 colState) =
   Some (\<lparr> vd_deps = [(''a'', [''b->c'']), (''a->b'', [''c''])],
            vd_objects = [(''a->b->c'', [''T1'', ''T2''])] \<rparr>,
         [(''a'', ''b->c'', [''T1'', ''T2'']), (''a->b'', ''c'', [''T1'', ''T2''])],
         [[''T1'']], [[''T2'']])"
  by code_simp

text \<open>
  Claim C1 fails on the code. The labels are collected under the key
  \<^verbatim>\<open>`${fromVisible}->${toVisible}`\<close>, and \<^verbatim>\<open>rebuildEdges\<close> reads them back under the
  key of the tube, while the visible edges themselves are kept apart as a map from
  consumers to sets of providers. In the snapshot below, with every module visible, the raw
  pair of \<open>a\<close> and \<open>b->c\<close> carries the label \<open>T1\<close> and the raw pair of \<open>a->b\<close>
  and \<open>c\<close> the label \<open>T2\<close>; they resolve to two different visible pairs with the one
  key \<open>a->b->c\<close>, and each of the two tubes gets both labels, not the union of the
  label sets of the pairs that resolve to it.
\<close>

theorem buildVisibleModuleDeps_key_collision:
  "moduleDepObjects colState = [(''a'', [(''b->c'', [''T1''])]), (''a->b'', [(''c'', [''T2''])])] \<and>
   map_option gu_deps (updateGraph 2 colState) =
     Some \<lparr> vd_deps = [(''a'', [''b->c'']), (''a->b'', [''c''])],
            vd_objects = [(''a->b->c'', [''T1'', ''T2''])] \<rparr> \<and>
   map_option (\<lambda>u. map (\<lambda>e. (fromModule e, toModule e, objects e)) (gu_edges u))
       (updateGraph 2 colState) =
     Some [(''a'', ''b->c'', [''T1'', ''T2'']), (''a->b'', ''c'', [''T1'', ''T2''])] \<and>
   map_option (\<lambda>u. pairContributions (gu_state u) ''a'' ''b->c'') (updateGraph 2 colState) =
     Some [[''T1'']] \<and>
   map_option (\<lambda>u. pairContributions (gu_state u) ''a->b'' ''c'') (updateGraph 2 colState) =
     Some [[''T2'']]"
  using col_load col_update by (cases "updateGraph 2 colState") simp_all

section \<open>Properties of the subtree size\<close>

lemma foldl_add: "foldl (+) (a::nat) xs = a + sum_list xs"
  by (induction xs arbitrary: a) auto

lemma those_eq_Some: "(those xs = Some ys) = (xs = map Some ys)"
proof (induction xs arbitrary: ys)
  case Nil
  then show ?case by auto
next
  case (Cons x xs)
  then show ?case
    by (cases x; cases ys) (auto split: option.splits)
qed

lemma those_map_Some: "those (map (\<lambda>x. Some (f x)) xs) = Some (map f xs)"
  by (simp add: those_eq_Some)

lemma those_map_cong:
  "(\<And>x. x \<in> set xs \<Longrightarrow> g x = Some (f x)) \<Longrightarrow> those (map g xs) = Some (map f xs)"
  by (simp add: those_eq_Some)

lemma sum_list_insort: "sum_list (map f (insort x xs)) = f x + sum_list (map f xs)"
  for f :: "'a::linorder \<Rightarrow> nat"
  by (induction xs) auto

lemma sum_list_sort: "sum_list (map f (sort xs)) = sum_list (map f xs)"
  for f :: "'a::linorder \<Rightarrow> nat"
  by (induction xs) (auto simp: sum_list_insort)

lemma countVisible_mono: "countVisible fuel s p = Some n \<Longrightarrow> countVisible (Suc fuel) s p = Some n"
proof (induction fuel arbitrary: p n)
  case 0
  then show ?case by simp
next
  case (Suc fuel)
  show ?case
  proof (cases "isExpanded s p")
    case False
    then show ?thesis using Suc.prems by simp
  next
    case True
    with Suc.prems obtain sizes where
      t: "those (map (\<lambda>child. countVisible fuel s child) (sort (childrenOf s p))) = Some sizes"
      and n: "n = foldl (+) 1 sizes"
      by auto
    from t have "map (\<lambda>child. countVisible fuel s child) (sort (childrenOf s p)) = map Some sizes"
      by (simp add: those_eq_Some)
    then have "map (\<lambda>child. countVisible (Suc fuel) s child) (sort (childrenOf s p)) = map Some sizes"
      using Suc.IH by (auto simp: list_eq_iff_nth_eq)
    then have "those (map (\<lambda>child. countVisible (Suc fuel) s child) (sort (childrenOf s p))) = Some sizes"
      by (simp add: those_eq_Some)
    then show ?thesis
      using True n by (simp del: countVisible.simps(2) add: countVisible.simps(2) [of "Suc fuel"])
  qed
qed

lemma countVisible_children:
  assumes "isExpanded s p" "countVisible fuel s p = Some n"
  shows "\<exists>sizes. those (map (\<lambda>child. countVisible fuel s child) (sort (childrenOf s p))) = Some sizes \<and>
           n = 1 + sum_list sizes"
proof (cases fuel)
  case 0
  then show ?thesis using assms by simp
next
  case (Suc f)
  with assms obtain sizes where
    t: "those (map (\<lambda>child. countVisible f s child) (sort (childrenOf s p))) = Some sizes"
    and n: "n = foldl (+) 1 sizes"
    by auto
  from t have "map (\<lambda>child. countVisible f s child) (sort (childrenOf s p)) = map Some sizes"
    by (simp add: those_eq_Some)
  then have "map (\<lambda>child. countVisible (Suc f) s child) (sort (childrenOf s p)) = map Some sizes"
    using countVisible_mono by (auto simp: list_eq_iff_nth_eq)
  then show ?thesis
    using n Suc by (simp add: those_eq_Some foldl_add)
qed

lemma countVisible_returns:
  "preorder fuel s p = Some ms \<Longrightarrow> \<exists>n. countVisible fuel s p = Some n"
proof (induction fuel arbitrary: p ms)
  case 0
  then show ?case by simp
next
  case (Suc fuel)
  from Suc.prems obtain below where
    t: "those (map (\<lambda>child. preorder fuel s child) (childrenOf s p)) = Some below"
    by auto
  then have m: "map (\<lambda>child. preorder fuel s child) (childrenOf s p) = map Some below"
    by (simp add: those_eq_Some)
  have "\<exists>n. countVisible fuel s c = Some n" if "c \<in> set (childrenOf s p)" for c
  proof -
    from that obtain i where "i < length (childrenOf s p)" "childrenOf s p ! i = c"
      by (auto simp: in_set_conv_nth)
    with m have "preorder fuel s c = Some (below ! i)"
      by (metis length_map nth_map)
    then show ?thesis by (rule Suc.IH)
  qed
  then have "\<forall>c\<in>set (sort (childrenOf s p)). countVisible fuel s c = Some (the (countVisible fuel s c))"
    by auto
  then have "those (map (\<lambda>child. countVisible fuel s child) (sort (childrenOf s p))) =
      Some (map (\<lambda>c. the (countVisible fuel s c)) (sort (childrenOf s p)))"
    by (intro those_map_cong) simp
  then show ?case by simp
qed

lemma countVisible_expanded:
  "preorder fuel s p = Some ms \<Longrightarrow> (\<forall>m\<in>set ms. isExpanded s m \<or> childrenOf s m = []) \<Longrightarrow>
   countVisible fuel s p = Some (length ms)"
proof (induction fuel arbitrary: p ms)
  case 0
  then show ?case by simp
next
  case (Suc fuel)
  from Suc.prems(1) obtain below where
    t: "those (map (\<lambda>child. preorder fuel s child) (childrenOf s p)) = Some below"
    and ms: "ms = p # concat below"
    by auto
  then have m: "map (\<lambda>child. preorder fuel s child) (childrenOf s p) = map Some below"
    by (simp add: those_eq_Some)
  then have len: "length below = length (childrenOf s p)"
    by (metis length_map)
  show ?case
  proof (cases "isExpanded s p")
    case False
    with Suc.prems(2) ms have "childrenOf s p = []" by simp
    with len ms False show ?thesis by simp
  next
    case True
    have each: "countVisible fuel s c = Some (length (the (preorder fuel s c)))"
      if "c \<in> set (childrenOf s p)" for c
    proof -
      from that obtain i where i: "i < length (childrenOf s p)" "childrenOf s p ! i = c"
        by (auto simp: in_set_conv_nth)
      with m have p: "preorder fuel s c = Some (below ! i)"
        by (metis length_map nth_map)
      have "below ! i \<in> set below"
        using i len by simp
      then have "set (below ! i) \<subseteq> set ms"
        unfolding ms by auto
      with Suc.prems(2) have "\<forall>m\<in>set (below ! i). isExpanded s m \<or> childrenOf s m = []"
        by blast
      from Suc.IH [OF p this] p show ?thesis by simp
    qed
    have "those (map (\<lambda>child. countVisible fuel s child) (sort (childrenOf s p))) =
        Some (map (\<lambda>c. length (the (preorder fuel s c))) (sort (childrenOf s p)))"
      by (intro those_map_cong) (simp add: each)
    moreover have "map (\<lambda>c. the (preorder fuel s c)) (childrenOf s p) = below"
      using m by (auto simp: list_eq_iff_nth_eq dest!: arg_cong [where f = "\<lambda>xs. map the xs"])
    then have "map (\<lambda>c. length (the (preorder fuel s c))) (childrenOf s p) = map length below"
      by (metis (no_types, lifting) map_map comp_apply map_eq_conv)
    then have "sum_list (map (\<lambda>c. length (the (preorder fuel s c))) (childrenOf s p)) = length (concat below)"
      by (simp add: length_concat)
    ultimately show ?thesis
      using True ms by (simp add: foldl_add sum_list_sort)
  qed
qed

text \<open>
  Claim C2. \<^verbatim>\<open>countVisible\<close> returns 1 for a path outside the expansion set. For a
  path in it, a result is 1 plus the sum of the results for its children in sorted
  order, and it has that result as soon as the children have theirs. It returns
  whenever the walk over the children lists below the path ends (the module map has no
  cycle there). When every module below the path that has children is expanded, the
  result is the number of visits of that walk; when moreover no module is visited twice
  (the children lists form a tree), it is 1 plus the number of descendants.
\<close>

theorem countVisible_subtree:
  "(0 < fuel \<and> \<not> isExpanded s p \<longrightarrow> countVisible fuel s p = Some 1) \<and>
   (isExpanded s p \<and> countVisible fuel s p = Some n \<longrightarrow>
      (\<exists>sizes. those (map (\<lambda>child. countVisible fuel s child) (sort (childrenOf s p))) = Some sizes \<and>
         n = 1 + sum_list sizes)) \<and>
   (isExpanded s p \<and>
      those (map (\<lambda>child. countVisible fuel s child) (sort (childrenOf s p))) = Some sizes \<longrightarrow>
      countVisible (Suc fuel) s p = Some (1 + sum_list sizes)) \<and>
   (preorder fuel s p = Some ms \<longrightarrow> (\<exists>k. countVisible fuel s p = Some k)) \<and>
   (preorder fuel s p = Some ms \<and> (\<forall>m\<in>set ms. isExpanded s m \<or> childrenOf s m = []) \<longrightarrow>
      countVisible fuel s p = Some (length ms) \<and>
      (distinct ms \<longrightarrow> countVisible fuel s p = Some (1 + card (set ms - {p}))))"
proof -
  have a: "countVisible fuel s p = Some 1" if "0 < fuel" "\<not> isExpanded s p"
    using that by (cases fuel) simp_all
  have c: "countVisible (Suc fuel) s p = Some (1 + sum_list sizes)"
    if "isExpanded s p"
      "those (map (\<lambda>child. countVisible fuel s child) (sort (childrenOf s p))) = Some sizes"
    using that by (simp add: foldl_add)
  have e: "countVisible fuel s p = Some (1 + card (set ms - {p}))"
    if h: "preorder fuel s p = Some ms" "\<forall>m\<in>set ms. isExpanded s m \<or> childrenOf s m = []"
      "distinct ms"
  proof -
    from h(1) obtain below where ms: "ms = p # below"
      by (cases fuel) auto
    with h(3) have "card (set ms - {p}) = length below"
      by (simp add: distinct_card)
    with countVisible_expanded [OF h(1) h(2)] ms show ?thesis by simp
  qed
  show ?thesis
    using a c e countVisible_children [of s p fuel n] countVisible_returns [of fuel s p ms]
      countVisible_expanded [of fuel s p ms]
    by blast
qed

lemma full_preorder:
  "preorder 3 fullState ''pkg'' = Some [''pkg'', ''pkg.a'', ''pkg.b'', ''pkg.b.d'', ''pkg.b.c'']"
  by code_simp

lemma full_expanded:
  "\<forall>m\<in>set [''pkg'', ''pkg.a'', ''pkg.b'', ''pkg.b.d'', ''pkg.b.c''].
     isExpanded fullState m \<or> childrenOf fullState m = []"
  by code_simp

theorem countVisible_subtree_witness:
  "countVisible 3 fullState ''pkg'' = Some 5 \<and>
   countVisible 3 demoState ''pkg.b'' = Some 1 \<and>
   countVisible 3 fullState ''pkg'' =
     Some (1 + card (set [''pkg'', ''pkg.a'', ''pkg.b'', ''pkg.b.d'', ''pkg.b.c''] - {''pkg''}))"
proof -
  have d: "distinct [''pkg'', ''pkg.a'', ''pkg.b'', ''pkg.b.d'', ''pkg.b.c'']"
    by simp
  have x: "\<not> isExpanded demoState ''pkg.b''"
    by code_simp
  from countVisible_subtree [of 3 fullState "''pkg''" 0 "[]"
      "[''pkg'', ''pkg.a'', ''pkg.b'', ''pkg.b.d'', ''pkg.b.c'']"] full_preorder full_expanded d
  have "countVisible 3 fullState ''pkg'' = Some (length [''pkg'', ''pkg.a'', ''pkg.b'', ''pkg.b.d'', ''pkg.b.c''])"
    and "countVisible 3 fullState ''pkg'' =
     Some (1 + card (set [''pkg'', ''pkg.a'', ''pkg.b'', ''pkg.b.d'', ''pkg.b.c''] - {''pkg''}))"
    by blast+
  moreover from countVisible_subtree [of 3 demoState "''pkg.b''" 0 "[]" "[]"] x
  have "countVisible 3 demoState ''pkg.b'' = Some 1"
    by simp
  ultimately show ?thesis by simp
qed

section \<open>Properties of the tree layout\<close>

lemma applyLog_Nil: "applyLog [] acc = acc"
  by (simp add: applyLog_def)

lemma applyLog_append: "applyLog (xs @ ys) acc = applyLog ys (applyLog xs acc)"
  by (simp add: applyLog_def)

lemma applyLog_Cons:
  "applyLog ((par, c, pos) # xs) acc =
     applyLog xs (acc\<lparr> layout_edges := layout_edges acc @ [(par, c)],
                       positions := AList.update c pos (positions acc) \<rparr>)"
  by (simp add: applyLog_def)

lemma placeEach_log:
  assumes pl: "\<And>c d y acc. pl c d y acc =
      map_option (\<lambda>writes. applyLog writes (acc\<lparr> positions := AList.update c \<lparr> pos_x = d, pos_y = y \<rparr> (positions acc) \<rparr>))
        (plLog c d y)"
  shows "placeEach pl par depth cursor kids acc =
      map_option (\<lambda>writes. applyLog writes acc) (eachLog plLog par depth cursor kids)"
proof (induction kids arbitrary: cursor acc)
  case Nil
  then show ?case by (simp add: applyLog_Nil)
next
  case (Cons k kids)
  obtain c sz where k: "k = (c, sz)" by (cases k)
  let ?center = "cursor + of_nat sz / 2"
  let ?acc1 = "acc\<lparr> layout_edges := layout_edges acc @ [(par, c)] \<rparr>"
  let ?acc2 = "acc\<lparr> layout_edges := layout_edges acc @ [(par, c)],
                     positions := AList.update c \<lparr> pos_x = depth, pos_y = ?center \<rparr> (positions acc) \<rparr>"
  have step: "placeEach pl par depth cursor (k # kids) acc =
      (case pl c depth ?center ?acc1 of
         None \<Rightarrow> None
       | Some a \<Rightarrow> placeEach pl par depth (cursor + of_nat sz) kids a)"
    unfolding k by (simp only: placeEach.simps Let_def)
  have call: "pl c depth ?center ?acc1 =
      map_option (\<lambda>writes. applyLog writes ?acc2) (plLog c depth ?center)"
    unfolding pl [of c depth ?center ?acc1] by simp
  show ?case
  proof (cases "plLog c depth ?center")
    case None
    then show ?thesis unfolding step call by (simp add: k)
  next
    case (Some below)
    have "placeEach pl par depth cursor (k # kids) acc =
        placeEach pl par depth (cursor + of_nat sz) kids (applyLog below ?acc2)"
      unfolding step call Some by simp
    also have "\<dots> = map_option (\<lambda>writes. applyLog writes (applyLog below ?acc2))
        (eachLog plLog par depth (cursor + of_nat sz) kids)"
      by (rule Cons.IH)
    also have "\<dots> = map_option (\<lambda>writes. applyLog writes acc) (eachLog plLog par depth cursor (k # kids))"
      unfolding k
      by (cases "eachLog plLog par depth (cursor + of_nat sz) kids")
         (simp_all add: Some applyLog_Cons applyLog_append)
    finally show ?thesis .
  qed
qed

lemma place_log:
  "place fuel s p d y acc =
     map_option (\<lambda>writes. applyLog writes (acc\<lparr> positions := AList.update p \<lparr> pos_x = d, pos_y = y \<rparr> (positions acc) \<rparr>))
       (placeLog fuel s p d y)"
proof (induction fuel arbitrary: p d y acc)
  case 0
  then show ?case by simp
next
  case (Suc fuel)
  note each = placeEach_log [where pl = "\<lambda>child d y a. place fuel s child d y a"
      and plLog = "\<lambda>child d y. placeLog fuel s child d y", OF Suc.IH]
  show ?case
  proof (cases "isExpanded s p")
    case False
    then show ?thesis by (simp add: applyLog_Nil)
  next
    case True
    show ?thesis
    proof (cases "those (map (\<lambda>child. countVisible fuel s child) (sort (childrenOf s p)))")
      case None
      then show ?thesis using True by simp
    next
      case (Some sizes)
      then show ?thesis
        using True by (simp add: Let_def each)
    qed
  qed
qed

lemma layoutTree_log:
  "layoutTree fuel s =
     map_option (\<lambda>writes. applyLog writes \<lparr> positions = [(ROOT_KEY, \<lparr> pos_x = 0, pos_y = 0 \<rparr>)], layout_edges = [] \<rparr>)
       (treeLog fuel s)"
proof -
  note each = placeEach_log [where pl = "\<lambda>root d y a. place fuel s root d y a"
      and plLog = "\<lambda>root d y. placeLog fuel s root d y", OF place_log]
  show ?thesis
    by (simp add: layoutTree_def treeLog_def Let_def each split: option.splits)
qed

lemma slot_Nil: "\<not> slot pl par depth cursor [] e"
  by (simp add: slot_def)

lemma slot_Cons:
  "slot pl par depth cursor ((c0, sz0) # rest) e =
     ((\<exists>below. pl c0 depth (cursor + of_nat sz0 / 2) = Some below \<and>
         (e = (par, c0, \<lparr> pos_x = depth, pos_y = cursor + of_nat sz0 / 2 \<rparr>) \<or> e \<in> set below)) \<or>
      slot pl par depth (cursor + of_nat sz0) rest e)"
  (is "?l = (?a \<or> ?b)")
proof
  assume ?l
  then obtain pre c sz post below where
    k: "(c0, sz0) # rest = pre @ (c, sz) # post" and
    p: "pl c depth (cursor + of_nat (sum_list (map snd pre)) + of_nat sz / 2) = Some below" and
    e: "e = (par, c, \<lparr> pos_x = depth,
                         pos_y = cursor + of_nat (sum_list (map snd pre)) + of_nat sz / 2 \<rparr>) \<or>
         e \<in> set below"
    unfolding slot_def by blast
  show "?a \<or> ?b"
  proof (cases pre)
    case Nil
    with k p e have ?a by auto
    then show ?thesis ..
  next
    case (Cons x pre')
    with k have x: "x = (c0, sz0)" and r: "rest = pre' @ (c, sz) # post" by simp_all
    have "cursor + of_nat (sum_list (map snd pre)) = cursor + of_nat sz0 + of_nat (sum_list (map snd pre'))"
      using Cons x by simp
    with p e r have ?b unfolding slot_def by metis
    then show ?thesis ..
  qed
next
  assume "?a \<or> ?b"
  then show ?l
  proof
    assume ?a
    then obtain below where p: "pl c0 depth (cursor + of_nat sz0 / 2) = Some below" and
      e: "e = (par, c0, \<lparr> pos_x = depth, pos_y = cursor + of_nat sz0 / 2 \<rparr>) \<or> e \<in> set below"
      by blast
    have k: "(c0, sz0) # rest = [] @ (c0, sz0) # rest" by simp
    have p': "pl c0 depth (cursor + of_nat (sum_list (map snd ([] :: (string \<times> nat) list))) + of_nat sz0 / 2) = Some below"
      using p by simp
    have e': "e = (par, c0, \<lparr> pos_x = depth,
          pos_y = cursor + of_nat (sum_list (map snd ([] :: (string \<times> nat) list))) + of_nat sz0 / 2 \<rparr>) \<or>
        e \<in> set below"
      using e by simp
    show ?l
      unfolding slot_def using k p' e' by blast
  next
    assume ?b
    then obtain pre c sz post below where
      r: "rest = pre @ (c, sz) # post" and
      p: "pl c depth (cursor + of_nat sz0 + of_nat (sum_list (map snd pre)) + of_nat sz / 2) = Some below" and
      e: "e = (par, c, \<lparr> pos_x = depth,
                         pos_y = cursor + of_nat sz0 + of_nat (sum_list (map snd pre)) + of_nat sz / 2 \<rparr>) \<or>
         e \<in> set below"
      unfolding slot_def by blast
    have eq: "cursor + of_nat (sum_list (map snd ((c0, sz0) # pre))) = cursor + of_nat sz0 + of_nat (sum_list (map snd pre))"
      by simp
    have k: "(c0, sz0) # rest = ((c0, sz0) # pre) @ (c, sz) # post"
      using r by simp
    have p': "pl c depth (cursor + of_nat (sum_list (map snd ((c0, sz0) # pre))) + of_nat sz / 2) = Some below"
      unfolding eq by (rule p)
    have e': "e = (par, c, \<lparr> pos_x = depth,
          pos_y = cursor + of_nat (sum_list (map snd ((c0, sz0) # pre))) + of_nat sz / 2 \<rparr>) \<or>
        e \<in> set below"
      unfolding eq by (rule e)
    show ?l
      unfolding slot_def using k p' e' by blast
  qed
qed

lemma eachLog_mem:
  "eachLog pl par depth cursor kids = Some L \<Longrightarrow> (e \<in> set L) = slot pl par depth cursor kids e"
proof (induction kids arbitrary: cursor L)
  case Nil
  then show ?case by (simp add: slot_Nil)
next
  case (Cons k kids)
  obtain c sz where k: "k = (c, sz)" by (cases k)
  from Cons.prems obtain below later where
    b: "pl c depth (cursor + of_nat sz / 2) = Some below" and
    l: "eachLog pl par depth (cursor + of_nat sz) kids = Some later" and
    L: "L = (par, c, \<lparr> pos_x = depth, pos_y = cursor + of_nat sz / 2 \<rparr>) # below @ later"
    unfolding k by (auto split: option.splits)
  show ?case
    unfolding k slot_Cons L using b Cons.IH [OF l] by auto
qed

lemma eachLog_all:
  "eachLog pl par depth cursor kids = Some L \<Longrightarrow> kids = pre @ (c, sz) # post \<Longrightarrow>
   \<exists>below. pl c depth (cursor + of_nat (sum_list (map snd pre)) + of_nat sz / 2) = Some below"
proof (induction kids arbitrary: cursor L pre)
  case Nil
  then show ?case by simp
next
  case (Cons k kids)
  obtain c0 sz0 where k: "k = (c0, sz0)" by (cases k)
  from Cons.prems(1) obtain below later where
    b: "pl c0 depth (cursor + of_nat sz0 / 2) = Some below" and
    l: "eachLog pl par depth (cursor + of_nat sz0) kids = Some later"
    unfolding k by (auto split: option.splits)
  show ?case
  proof (cases pre)
    case Nil
    with Cons.prems(2) k b show ?thesis by simp
  next
    case (Cons x pre')
    with Cons.prems(2) k have x: "x = (c0, sz0)" and r: "kids = pre' @ (c, sz) # post" by simp_all
    from Cons.IH [OF l r] obtain below' where
      "pl c depth (cursor + of_nat sz0 + of_nat (sum_list (map snd pre')) + of_nat sz / 2) = Some below'"
      by blast
    moreover have "cursor + of_nat (sum_list (map snd pre)) = cursor + of_nat sz0 + of_nat (sum_list (map snd pre'))"
      using Cons x by simp
    ultimately show ?thesis by (simp only:) blast
  qed
qed

lemma map_split:
  "(map g cs = pre' @ k # post') =
     (\<exists>pre c post. cs = pre @ c # post \<and> pre' = map g pre \<and> k = g c \<and> post' = map g post)"
proof
  assume a: "map g cs = pre' @ k # post'"
  define n where "n = length pre'"
  have l: "n < length cs"
    using arg_cong [OF a, of length] by (simp add: n_def)
  have "cs = take n cs @ cs ! n # drop (Suc n) cs"
    using l by (simp add: id_take_nth_drop)
  moreover have "pre' = map g (take n cs)"
    using arg_cong [OF a, of "take n"] by (simp add: n_def take_map)
  moreover have "k = g (cs ! n)"
    using arg_cong [OF a, of "\<lambda>xs. xs ! n"] l by (simp add: n_def nth_append)
  moreover have "post' = map g (drop (Suc n) cs)"
    using arg_cong [OF a, of "drop (Suc n)"] by (simp add: n_def drop_map)
  ultimately show "\<exists>pre c post. cs = pre @ c # post \<and> pre' = map g pre \<and> k = g c \<and> post' = map g post"
    by blast
next
  assume "\<exists>pre c post. cs = pre @ c # post \<and> pre' = map g pre \<and> k = g c \<and> post' = map g post"
  then show "map g cs = pre' @ k # post'" by auto
qed

lemma childPos_center:
  "\<lparr> pos_x = pos_x pos0 + 1,
     pos_y = pos_y pos0 - of_nat (sum_list (map (subtreeSize F s) (pre @ c # post))) / 2
       + of_nat (sum_list (map snd (map (\<lambda>c. (c, subtreeSize F s c)) pre)))
       + of_nat (subtreeSize F s c) / 2 \<rparr> = childPos F s pos0 pre c post"
  by (simp add: childPos_def comp_def)

lemma childPos_sel:
  "pos_x (childPos F s pos0 pre c post) = pos_x pos0 + 1"
  "pos_y (childPos F s pos0 pre c post) =
     pos_y pos0 - of_nat (sum_list (map (subtreeSize F s) (pre @ c # post))) / 2
       + of_nat (sum_list (map snd (map (\<lambda>c. (c, subtreeSize F s c)) pre)))
       + of_nat (subtreeSize F s c) / 2"
  by (simp_all add: childPos_def comp_def)

lemma eachLog_kids_mem:
  assumes run: "eachLog pl par (pos_x pos0 + 1)
      (pos_y pos0 - of_nat (sum_list (map (subtreeSize F s) kids)) / 2)
      (map (\<lambda>c. (c, subtreeSize F s c)) kids) = Some L"
  shows "(e \<in> set L) =
     (\<exists>pre c post below. kids = pre @ c # post \<and>
        pl c (pos_x (childPos F s pos0 pre c post)) (pos_y (childPos F s pos0 pre c post)) = Some below \<and>
        (e = (par, c, childPos F s pos0 pre c post) \<or> e \<in> set below))"
  (is "?l = ?r")
proof
  assume ?l
  then have "slot pl par (pos_x pos0 + 1)
      (pos_y pos0 - of_nat (sum_list (map (subtreeSize F s) kids)) / 2)
      (map (\<lambda>c. (c, subtreeSize F s c)) kids) e"
    using eachLog_mem [OF run] by simp
  then obtain pre' c sz post' below where
    k: "map (\<lambda>c. (c, subtreeSize F s c)) kids = pre' @ (c, sz) # post'" and
    p: "pl c (pos_x pos0 + 1) (pos_y pos0 - of_nat (sum_list (map (subtreeSize F s) kids)) / 2
          + of_nat (sum_list (map snd pre')) + of_nat sz / 2) = Some below" and
    e: "e = (par, c, \<lparr> pos_x = pos_x pos0 + 1,
          pos_y = pos_y pos0 - of_nat (sum_list (map (subtreeSize F s) kids)) / 2
          + of_nat (sum_list (map snd pre')) + of_nat sz / 2 \<rparr>) \<or> e \<in> set below"
    unfolding slot_def by blast
  from k obtain pre c' post where
    s: "kids = pre @ c' # post" "pre' = map (\<lambda>c. (c, subtreeSize F s c)) pre"
       "(c, sz) = (c', subtreeSize F s c')"
    unfolding map_split by blast
  then have c: "c' = c" and sz: "sz = subtreeSize F s c" by simp_all
  have p': "pl c (pos_x (childPos F s pos0 pre c post)) (pos_y (childPos F s pos0 pre c post)) = Some below"
    using p unfolding childPos_sel s(1) s(2) c sz .
  have e': "e = (par, c, childPos F s pos0 pre c post) \<or> e \<in> set below"
    using e unfolding s(1) s(2) c sz childPos_center .
  show ?r
    using s(1) c p' e' by blast
next
  assume ?r
  then obtain pre c post below where
    k: "kids = pre @ c # post" and
    p: "pl c (pos_x (childPos F s pos0 pre c post)) (pos_y (childPos F s pos0 pre c post)) = Some below" and
    e: "e = (par, c, childPos F s pos0 pre c post) \<or> e \<in> set below"
    by blast
  let ?g = "\<lambda>c. (c, subtreeSize F s c)"
  have k': "map ?g kids = map ?g pre @ (c, subtreeSize F s c) # map ?g post"
    using k by simp
  have p': "pl c (pos_x pos0 + 1) (pos_y pos0 - of_nat (sum_list (map (subtreeSize F s) kids)) / 2
          + of_nat (sum_list (map snd (map ?g pre))) + of_nat (subtreeSize F s c) / 2) = Some below"
    using p unfolding childPos_sel k .
  have e': "e = (par, c, \<lparr> pos_x = pos_x pos0 + 1,
          pos_y = pos_y pos0 - of_nat (sum_list (map (subtreeSize F s) kids)) / 2
          + of_nat (sum_list (map snd (map ?g pre))) + of_nat (subtreeSize F s c) / 2 \<rparr>) \<or> e \<in> set below"
    using e unfolding k childPos_center .
  have "slot pl par (pos_x pos0 + 1)
      (pos_y pos0 - of_nat (sum_list (map (subtreeSize F s) kids)) / 2)
      (map ?g kids) e"
    unfolding slot_def using k' p' e' by blast
  then show ?l
    using eachLog_mem [OF run] by simp
qed

lemma eachLog_kids_all:
  assumes run: "eachLog pl par (pos_x pos0 + 1)
      (pos_y pos0 - of_nat (sum_list (map (subtreeSize F s) kids)) / 2)
      (map (\<lambda>c. (c, subtreeSize F s c)) kids) = Some L"
    and k: "kids = pre @ c # post"
  shows "\<exists>below. pl c (pos_x (childPos F s pos0 pre c post)) (pos_y (childPos F s pos0 pre c post)) = Some below"
proof -
  let ?g = "\<lambda>c. (c, subtreeSize F s c)"
  have k': "map ?g kids = map ?g pre @ (c, subtreeSize F s c) # map ?g post"
    using k by simp
  from eachLog_all [OF run k'] show ?thesis
    unfolding childPos_sel k .
qed

lemma eachLog_good:
  assumes IH: "\<And>c pos B. pl c (pos_x pos) (pos_y pos) = Some B \<Longrightarrow>
      soundLog F s c pos (visibleChildren s c) B \<and> completeLog F s c pos (visibleChildren s c) B"
    and run: "eachLog pl par (pos_x pos0 + 1)
      (pos_y pos0 - of_nat (sum_list (map (subtreeSize F s) kids)) / 2)
      (map (\<lambda>c. (c, subtreeSize F s c)) kids) = Some L"
  shows "soundLog F s par pos0 kids L \<and> completeLog F s par pos0 kids L"
proof
  note mem = eachLog_kids_mem [OF run]
  show "soundLog F s par pos0 kids L"
    unfolding soundLog_def
  proof
    fix e assume "e \<in> set L"
    then obtain pre c post below where
      k: "kids = pre @ c # post" and
      p: "pl c (pos_x (childPos F s pos0 pre c post)) (pos_y (childPos F s pos0 pre c post)) = Some below" and
      e: "e = (par, c, childPos F s pos0 pre c post) \<or> e \<in> set below"
      unfolding mem by blast
    have direct: "(par, c, childPos F s pos0 pre c post) \<in> set L"
      unfolding mem using k p by blast
    have sub: "set below \<subseteq> set L"
    proof
      fix x assume "x \<in> set below"
      then show "x \<in> set L" unfolding mem using k p by blast
    qed
    from e show "(fst e = par \<and> justified F s pos0 kids e) \<or>
        (\<exists>gp ppos. (gp, fst e, ppos) \<in> set L \<and> justified F s ppos (visibleChildren s (fst e)) e)"
    proof
      assume "e = (par, c, childPos F s pos0 pre c post)"
      then have "fst e = par \<and> justified F s pos0 kids e"
        using k by (auto simp: justified_def)
      then show ?thesis ..
    next
      assume b: "e \<in> set below"
      from IH [OF p] have "soundLog F s c (childPos F s pos0 pre c post) (visibleChildren s c) below"
        by simp
      with b have "(fst e = c \<and> justified F s (childPos F s pos0 pre c post) (visibleChildren s c) e) \<or>
          (\<exists>gp ppos. (gp, fst e, ppos) \<in> set below \<and> justified F s ppos (visibleChildren s (fst e)) e)"
        unfolding soundLog_def by blast
      then have "\<exists>gp ppos. (gp, fst e, ppos) \<in> set L \<and> justified F s ppos (visibleChildren s (fst e)) e"
        using direct sub by blast
      then show ?thesis ..
    qed
  qed
  show "completeLog F s par pos0 kids L"
    unfolding completeLog_def
  proof (intro conjI allI impI)
    fix pre c post assume k: "kids = pre @ c # post"
    from eachLog_kids_all [OF run k] obtain below where
      "pl c (pos_x (childPos F s pos0 pre c post)) (pos_y (childPos F s pos0 pre c post)) = Some below"
      by blast
    then show "(par, c, childPos F s pos0 pre c post) \<in> set L"
      unfolding mem using k by blast
  next
    fix gp q qpos pre' c' post'
    assume a: "(gp, q, qpos) \<in> set L \<and> visibleChildren s q = pre' @ c' # post'"
    then obtain pre c post below where
      k: "kids = pre @ c # post" and
      p: "pl c (pos_x (childPos F s pos0 pre c post)) (pos_y (childPos F s pos0 pre c post)) = Some below" and
      e: "(gp, q, qpos) = (par, c, childPos F s pos0 pre c post) \<or> (gp, q, qpos) \<in> set below"
      unfolding mem by blast
    have sub: "set below \<subseteq> set L"
    proof
      fix x assume "x \<in> set below"
      then show "x \<in> set L" unfolding mem using k p by blast
    qed
    from IH [OF p] have cl: "completeLog F s c (childPos F s pos0 pre c post) (visibleChildren s c) below"
      by simp
    from e have "(q, c', childPos F s qpos pre' c' post') \<in> set below"
    proof
      assume "(gp, q, qpos) = (par, c, childPos F s pos0 pre c post)"
      then have "q = c" "qpos = childPos F s pos0 pre c post" by simp_all
      with cl a show ?thesis unfolding completeLog_def by blast
    next
      assume "(gp, q, qpos) \<in> set below"
      with cl a show ?thesis unfolding completeLog_def by blast
    qed
    with sub show "(q, c', childPos F s qpos pre' c' post') \<in> set L" by blast
  qed
qed

lemma countVisible_mono_le:
  "countVisible f s p = Some n \<Longrightarrow> f \<le> F \<Longrightarrow> countVisible F s p = Some n"
proof (induction "F - f" arbitrary: F)
  case 0
  then show ?case by simp
next
  case (Suc k)
  then obtain F' where F: "F = Suc F'" and "k = F' - f" "f \<le> F'"
    by (cases F) auto
  with Suc have "countVisible F' s p = Some n" by blast
  then show ?case unfolding F by (rule countVisible_mono)
qed

lemma zip_map_same: "zip xs (map f xs) = map (\<lambda>x. (x, f x)) xs"
  by (induction xs) auto

lemma those_sizes:
  assumes "those (map (\<lambda>child. countVisible f s child) cs) = Some sizes" "f \<le> F"
  shows "sizes = map (subtreeSize F s) cs"
proof -
  from assms(1) have m: "map (\<lambda>child. countVisible f s child) cs = map Some sizes"
    by (simp add: those_eq_Some)
  then have len: "length sizes = length cs"
    by (metis length_map)
  have "sizes ! i = subtreeSize F s (cs ! i)" if "i < length cs" for i
  proof -
    from m that len have "countVisible f s (cs ! i) = Some (sizes ! i)"
      by (metis nth_map)
    from countVisible_mono_le [OF this assms(2)] show ?thesis
      by (simp add: subtreeSize_def)
  qed
  with len show ?thesis
    by (simp add: list_eq_iff_nth_eq)
qed

lemma soundLog_Nil: "soundLog F s anchor pos kids []"
  by (simp add: soundLog_def)

lemma completeLog_Nil: "completeLog F s anchor pos [] []"
  by (simp add: completeLog_def)

lemma placeLog_good:
  "placeLog f s p (pos_x pos) (pos_y pos) = Some L \<Longrightarrow> f \<le> F \<Longrightarrow>
   soundLog F s p pos (visibleChildren s p) L \<and> completeLog F s p pos (visibleChildren s p) L"
proof (induction f arbitrary: p pos L)
  case 0
  then show ?case by simp
next
  case (Suc f)
  show ?case
  proof (cases "isExpanded s p")
    case False
    with Suc.prems have "L = []" by simp
    moreover have "visibleChildren s p = []" using False by (simp add: visibleChildren_def)
    ultimately show ?thesis by (simp add: soundLog_Nil completeLog_Nil)
  next
    case True
    let ?cs = "sort (childrenOf s p)"
    from Suc.prems(1) True obtain sizes where
      t: "those (map (\<lambda>child. countVisible f s child) ?cs) = Some sizes" and
      run: "eachLog (\<lambda>child d y. placeLog f s child d y) p (pos_x pos + 1)
              (pos_y pos - of_nat (foldl (+) 0 sizes) / 2) (zip ?cs sizes) = Some L"
      by (auto split: option.splits)
    from Suc.prems(2) have le: "f \<le> F" by simp
    have sz: "sizes = map (subtreeSize F s) ?cs"
      using t le by (rule those_sizes)
    have vc: "visibleChildren s p = ?cs"
      using True by (simp add: visibleChildren_def)
    have run': "eachLog (\<lambda>child d y. placeLog f s child d y) p (pos_x pos + 1)
        (pos_y pos - of_nat (sum_list (map (subtreeSize F s) ?cs)) / 2)
        (map (\<lambda>c. (c, subtreeSize F s c)) ?cs) = Some L"
      using run unfolding sz zip_map_same foldl_add by simp
    have ih: "\<And>c pos B. placeLog f s c (pos_x pos) (pos_y pos) = Some B \<Longrightarrow>
        soundLog F s c pos (visibleChildren s c) B \<and> completeLog F s c pos (visibleChildren s c) B"
      using Suc.IH le by blast
    from eachLog_good [where pl = "\<lambda>child d y. placeLog f s child d y", OF ih run']
    show ?thesis unfolding vc .
  qed
qed

lemma treeLog_good:
  assumes "treeLog fuel s = Some L"
  shows "soundLog fuel s ROOT_KEY \<lparr> pos_x = 0, pos_y = 0 \<rparr> (moduleRoots s) L \<and>
         completeLog fuel s ROOT_KEY \<lparr> pos_x = 0, pos_y = 0 \<rparr> (moduleRoots s) L"
proof -
  let ?pos0 = "\<lparr> pos_x = 0, pos_y = 0 \<rparr>"
  from assms obtain sizes where
    t: "those (map (\<lambda>root. countVisible fuel s root) (moduleRoots s)) = Some sizes" and
    run: "eachLog (\<lambda>root d y. placeLog fuel s root d y) ROOT_KEY 1
            (- of_nat (foldl (+) 0 sizes) / 2) (zip (moduleRoots s) sizes) = Some L"
    by (auto simp: treeLog_def split: option.splits)
  have sz: "sizes = map (subtreeSize fuel s) (moduleRoots s)"
    using t by (rule those_sizes) simp
  have run': "eachLog (\<lambda>root d y. placeLog fuel s root d y) ROOT_KEY (pos_x ?pos0 + 1)
      (pos_y ?pos0 - of_nat (sum_list (map (subtreeSize fuel s) (moduleRoots s))) / 2)
      (map (\<lambda>c. (c, subtreeSize fuel s c)) (moduleRoots s)) = Some L"
    using run unfolding sz zip_map_same foldl_add by simp
  have ih: "\<And>c pos B. placeLog fuel s c (pos_x pos) (pos_y pos) = Some B \<Longrightarrow>
      soundLog fuel s c pos (visibleChildren s c) B \<and> completeLog fuel s c pos (visibleChildren s c) B"
    using placeLog_good [where F = fuel] by blast
  from eachLog_good [where pl = "\<lambda>root d y. placeLog fuel s root d y", OF ih run']
  show ?thesis .
qed

lemma eachLog_returns:
  "(\<And>c d y. c \<in> fst ` set kids \<Longrightarrow> \<exists>B. pl c d y = Some B) \<Longrightarrow>
   \<exists>L. eachLog pl par depth cursor kids = Some L"
proof (induction kids arbitrary: cursor)
  case Nil
  then show ?case by simp
next
  case (Cons k kids)
  obtain c sz where k: "k = (c, sz)" by (cases k)
  from Cons.prems [of c depth "cursor + of_nat sz / 2"] obtain B where
    b: "pl c depth (cursor + of_nat sz / 2) = Some B"
    unfolding k by auto
  have "\<exists>L. eachLog pl par depth (cursor + of_nat sz) kids = Some L"
    by (rule Cons.IH) (use Cons.prems in auto)
  then show ?case
    unfolding k using b by auto
qed

lemma preorder_children:
  "preorder (Suc f) s p = Some ms \<Longrightarrow> c \<in> set (childrenOf s p) \<Longrightarrow> \<exists>below. preorder f s c = Some below"
proof -
  assume a: "preorder (Suc f) s p = Some ms" and c: "c \<in> set (childrenOf s p)"
  from a obtain below where
    "those (map (\<lambda>child. preorder f s child) (childrenOf s p)) = Some below"
    by auto
  then have m: "map (\<lambda>child. preorder f s child) (childrenOf s p) = map Some below"
    by (simp add: those_eq_Some)
  from c obtain i where "i < length (childrenOf s p)" "childrenOf s p ! i = c"
    by (auto simp: in_set_conv_nth)
  with m have "preorder f s c = Some (below ! i)"
    by (metis length_map nth_map)
  then show ?thesis ..
qed

lemma those_returns:
  "(\<And>x. x \<in> set xs \<Longrightarrow> \<exists>y. g x = Some y) \<Longrightarrow> \<exists>ys. those (map g xs) = Some ys"
proof -
  assume a: "\<And>x. x \<in> set xs \<Longrightarrow> \<exists>y. g x = Some y"
  have "those (map g xs) = Some (map (\<lambda>x. the (g x)) xs)"
    by (rule those_map_cong) (use a in force)
  then show ?thesis ..
qed

lemma placeLog_returns:
  "preorder f s p = Some ms \<Longrightarrow> \<exists>L. placeLog f s p d y = Some L"
proof (induction f arbitrary: p ms d y)
  case 0
  then show ?case by simp
next
  case (Suc f)
  show ?case
  proof (cases "isExpanded s p")
    case False
    then show ?thesis by simp
  next
    case True
    let ?cs = "sort (childrenOf s p)"
    have kid: "\<exists>below. preorder f s c = Some below" if "c \<in> set ?cs" for c
      using preorder_children [OF Suc.prems] that by simp
    have "\<exists>sizes. those (map (\<lambda>child. countVisible f s child) ?cs) = Some sizes"
      by (rule those_returns) (use kid countVisible_returns in blast)
    then obtain sizes where t: "those (map (\<lambda>child. countVisible f s child) ?cs) = Some sizes" ..
    have "\<exists>L. eachLog (\<lambda>child d y. placeLog f s child d y) p (d + 1)
        (y - of_nat (foldl (+) 0 sizes) / 2) (zip ?cs sizes) = Some L"
    proof (rule eachLog_returns)
      fix c d' y' assume "c \<in> fst ` set (zip ?cs sizes)"
      then have "c \<in> set ?cs" by (auto dest: set_zip_leftD)
      from kid [OF this] obtain below where "preorder f s c = Some below" ..
      then show "\<exists>B. placeLog f s c d' y' = Some B" by (rule Suc.IH)
    qed
    then show ?thesis using True t by simp
  qed
qed

lemma treeLog_returns:
  assumes "\<forall>r\<in>set (moduleRoots s). preorder fuel s r \<noteq> None"
  shows "\<exists>L. treeLog fuel s = Some L"
proof -
  have root: "\<exists>ms. preorder fuel s r = Some ms" if "r \<in> set (moduleRoots s)" for r
    using assms that by auto
  have "\<exists>sizes. those (map (\<lambda>root. countVisible fuel s root) (moduleRoots s)) = Some sizes"
    by (rule those_returns) (use root countVisible_returns in blast)
  then obtain sizes where t: "those (map (\<lambda>root. countVisible fuel s root) (moduleRoots s)) = Some sizes" ..
  have "\<exists>L. eachLog (\<lambda>root d y. placeLog fuel s root d y) ROOT_KEY 1
      (- of_nat (foldl (+) 0 sizes) / 2) (zip (moduleRoots s) sizes) = Some L"
  proof (rule eachLog_returns)
    fix c d' y' assume "c \<in> fst ` set (zip (moduleRoots s) sizes)"
    then have "c \<in> set (moduleRoots s)" by (auto dest: set_zip_leftD)
    from root [OF this] obtain ms where "preorder fuel s c = Some ms" ..
    then show "\<exists>B. placeLog fuel s c d' y' = Some B" by (rule placeLog_returns)
  qed
  then show ?thesis using t by (simp add: treeLog_def)
qed

lemma update_new_keys:
  "k \<notin> fst ` set al \<Longrightarrow> map fst (AList.update k v al) = map fst al @ [k]"
  by (induction al) auto

lemma fold_update_dom:
  "(map_of (fold (\<lambda>e. AList.update (kf e) (vf e)) L acc) x \<noteq> None) =
     (map_of acc x \<noteq> None \<or> x \<in> kf ` set L)"
  by (induction L arbitrary: acc) (auto simp: update_conv')

lemma fold_update_lookup:
  "distinct (map fst acc @ map kf L) \<Longrightarrow>
   (map_of (fold (\<lambda>e. AList.update (kf e) (vf e)) L acc) x = Some v) =
     (map_of acc x = Some v \<or> (\<exists>e\<in>set L. kf e = x \<and> vf e = v))"
proof (induction L arbitrary: acc)
  case Nil
  then show ?case by simp
next
  case (Cons e L)
  from Cons.prems have new: "kf e \<notin> fst ` set acc" by auto
  then have keys: "map fst (AList.update (kf e) (vf e) acc) = map fst acc @ [kf e]"
    by (rule update_new_keys)
  have d: "distinct (map fst (AList.update (kf e) (vf e) acc) @ map kf L)"
    unfolding keys using Cons.prems by simp
  have none: "map_of acc (kf e) = None"
    using new by (simp add: map_of_eq_None_iff)
  have later: "kf e \<notin> kf ` set L"
    using Cons.prems by auto
  show ?case
    using Cons.IH [OF d] none later
    by (auto simp: update_conv')
qed

lemma childPos_spans:
  "spanLow F s (childPos F s ppos [] c post) c =
     pos_y ppos - of_nat (sum_list (map (subtreeSize F s) (c # post))) / 2"
  "spanHigh F s (childPos F s ppos pre c []) c =
     pos_y ppos + of_nat (sum_list (map (subtreeSize F s) (pre @ [c]))) / 2"
  "spanHigh F s (childPos F s ppos pre c (c' # post)) c =
     spanLow F s (childPos F s ppos (pre @ [c]) c' post) c'"
  "spanHigh F s (childPos F s ppos pre c post) c - spanLow F s (childPos F s ppos pre c post) c =
     of_nat (subtreeSize F s c)"
  by (simp_all add: spanLow_def spanHigh_def childPos_def field_simps)

lemma layout_of_log:
  assumes "layoutTree fuel s = Some out"
  obtains L where "treeLog fuel s = Some L"
    "positions out = fold (\<lambda>e. AList.update (fst (snd e)) (snd (snd e))) L
                       [(ROOT_KEY, \<lparr> pos_x = 0, pos_y = 0 \<rparr>)]"
    "layout_edges out = map (\<lambda>e. (fst e, fst (snd e))) L"
proof -
  from assms obtain L where l: "treeLog fuel s = Some L"
    and o: "out = applyLog L \<lparr> positions = [(ROOT_KEY, \<lparr> pos_x = 0, pos_y = 0 \<rparr>)], layout_edges = [] \<rparr>"
    unfolding layoutTree_log by auto
  show ?thesis
    by (rule that [OF l]) (simp_all add: o applyLog_def)
qed

lemma justified_x: "justified F s ppos kids e \<Longrightarrow> pos_x (snd (snd e)) = pos_x ppos + 1"
  by (auto simp: justified_def childPos_def)

lemma justified_child: "justified F s ppos kids e \<Longrightarrow> fst (snd e) \<in> set kids"
  by (auto simp: justified_def)

lemma visibleChildren_mem:
  "c \<in> set (visibleChildren s q) \<Longrightarrow> isExpanded s q \<and> c \<in> set (childrenOf s q)"
  by (auto simp: visibleChildren_def split: if_splits)

lemma layoutTree_dom:
  assumes "layoutTree fuel s = Some out" "map_of (positions out) m \<noteq> None"
  shows "m = ROOT_KEY \<or> m \<in> set (moduleRoots s) \<or>
     (\<exists>q. isExpanded s q \<and> m \<in> set (childrenOf s q) \<and> map_of (positions out) q \<noteq> None)"
proof -
  from assms(1) obtain L where l: "treeLog fuel s = Some L"
    and p: "positions out = fold (\<lambda>e. AList.update (fst (snd e)) (snd (snd e))) L
                       [(ROOT_KEY, \<lparr> pos_x = 0, pos_y = 0 \<rparr>)]"
    by (rule layout_of_log)
  from treeLog_good [OF l] have snd: "soundLog fuel s ROOT_KEY \<lparr> pos_x = 0, pos_y = 0 \<rparr> (moduleRoots s) L"
    by simp
  have dom: "(map_of (positions out) x \<noteq> None) = (x = ROOT_KEY \<or> x \<in> (\<lambda>e. fst (snd e)) ` set L)" for x
    unfolding p fold_update_dom by auto
  show ?thesis
  proof (cases "m = ROOT_KEY")
    case True
    then show ?thesis by simp
  next
    case False
    with assms(2) obtain e where e: "e \<in> set L" "fst (snd e) = m"
      unfolding dom by auto
    from snd e(1) have "(fst e = ROOT_KEY \<and> justified fuel s \<lparr> pos_x = 0, pos_y = 0 \<rparr> (moduleRoots s) e) \<or>
        (\<exists>gp ppos. (gp, fst e, ppos) \<in> set L \<and> justified fuel s ppos (visibleChildren s (fst e)) e)"
      unfolding soundLog_def by blast
    then show ?thesis
    proof
      assume "fst e = ROOT_KEY \<and> justified fuel s \<lparr> pos_x = 0, pos_y = 0 \<rparr> (moduleRoots s) e"
      then have "m \<in> set (moduleRoots s)"
        using justified_child e(2) by blast
      then show ?thesis by simp
    next
      assume "\<exists>gp ppos. (gp, fst e, ppos) \<in> set L \<and> justified fuel s ppos (visibleChildren s (fst e)) e"
      then obtain gp ppos where g: "(gp, fst e, ppos) \<in> set L"
        and j: "justified fuel s ppos (visibleChildren s (fst e)) e"
        by blast
      from justified_child [OF j] e(2) have "m \<in> set (visibleChildren s (fst e))" by simp
      then have "isExpanded s (fst e) \<and> m \<in> set (childrenOf s (fst e))"
        by (rule visibleChildren_mem)
      moreover have "map_of (positions out) (fst e) \<noteq> None"
        unfolding dom using g by force
      ultimately show ?thesis by blast
    qed
  qed
qed

lemma layoutTree_tree:
  assumes lay: "layoutTree fuel s = Some out" and tree: "treeShaped out"
  shows "map_of (positions out) ROOT_KEY = Some \<lparr> pos_x = 0, pos_y = 0 \<rparr>"
    and "(p, c) \<in> set (layout_edges out) \<Longrightarrow>
         \<exists>ppos cpos. map_of (positions out) p = Some ppos \<and> map_of (positions out) c = Some cpos \<and>
           pos_x cpos = pos_x ppos + 1"
    and "map_of (positions out) p = Some ppos \<Longrightarrow> layoutChildren s p = pre @ c # post \<Longrightarrow>
         map_of (positions out) c = Some (childPos fuel s ppos pre c post) \<and>
         (p, c) \<in> set (layout_edges out)"
proof -
  let ?pos0 = "\<lparr> pos_x = 0, pos_y = 0 \<rparr>"
  from lay obtain L where l: "treeLog fuel s = Some L"
    and pos: "positions out = fold (\<lambda>e. AList.update (fst (snd e)) (snd (snd e))) L [(ROOT_KEY, ?pos0)]"
    and edg: "layout_edges out = map (\<lambda>e. (fst e, fst (snd e))) L"
    by (rule layout_of_log)
  from treeLog_good [OF l] have snd: "soundLog fuel s ROOT_KEY ?pos0 (moduleRoots s) L"
    and cmp: "completeLog fuel s ROOT_KEY ?pos0 (moduleRoots s) L"
    by simp_all
  have d: "distinct (map fst [(ROOT_KEY, ?pos0)] @ map (\<lambda>e. fst (snd e)) L)"
    using tree unfolding treeShaped_def edg by (simp add: comp_def)
  have look: "(map_of (positions out) x = Some v) =
      ((x = ROOT_KEY \<and> v = ?pos0) \<or> (\<exists>e\<in>set L. fst (snd e) = x \<and> snd (snd e) = v))" for x v
    unfolding pos fold_update_lookup [OF d] by auto
  have placed: "map_of (positions out) x = Some v" if "(g, x, v) \<in> set L" for g x v
    unfolding look using that by force
  show root: "map_of (positions out) ROOT_KEY = Some ?pos0"
    unfolding look by simp
  show "\<exists>ppos cpos. map_of (positions out) p = Some ppos \<and> map_of (positions out) c = Some cpos \<and>
           pos_x cpos = pos_x ppos + 1" if "(p, c) \<in> set (layout_edges out)"
  proof -
    from that obtain e where e: "e \<in> set L" "fst e = p" "fst (snd e) = c"
      unfolding edg by auto
    then have ev: "(p, c, snd (snd e)) \<in> set L" by (cases e) auto
    from snd e(1) have "(fst e = ROOT_KEY \<and> justified fuel s ?pos0 (moduleRoots s) e) \<or>
        (\<exists>gp ppos. (gp, fst e, ppos) \<in> set L \<and> justified fuel s ppos (visibleChildren s (fst e)) e)"
      unfolding soundLog_def by blast
    then show ?thesis
    proof
      assume a: "fst e = ROOT_KEY \<and> justified fuel s ?pos0 (moduleRoots s) e"
      then have "pos_x (snd (snd e)) = pos_x ?pos0 + 1" using justified_x by blast
      with a e(2) root placed [OF ev] show ?thesis by auto
    next
      assume "\<exists>gp ppos. (gp, fst e, ppos) \<in> set L \<and> justified fuel s ppos (visibleChildren s (fst e)) e"
      then obtain gp ppos where g: "(gp, p, ppos) \<in> set L"
        and j: "justified fuel s ppos (visibleChildren s p) e"
        using e(2) by blast
      from justified_x [OF j] placed [OF g] placed [OF ev] show ?thesis by auto
    qed
  qed
  show "map_of (positions out) c = Some (childPos fuel s ppos pre c post) \<and>
         (p, c) \<in> set (layout_edges out)"
    if pp: "map_of (positions out) p = Some ppos" and k: "layoutChildren s p = pre @ c # post"
  proof -
    have "(p, c, childPos fuel s ppos pre c post) \<in> set L"
    proof (cases "p = ROOT_KEY")
      case True
      with pp root have "ppos = ?pos0" by simp
      moreover from True k have "moduleRoots s = pre @ c # post"
        by (simp add: layoutChildren_def)
      ultimately show ?thesis
        using cmp True unfolding completeLog_def by blast
    next
      case False
      with pp obtain e where "e \<in> set L" "fst (snd e) = p" "snd (snd e) = ppos"
        unfolding look by auto
      then have "(fst e, p, ppos) \<in> set L" by (cases e) auto
      moreover from False k have "visibleChildren s p = pre @ c # post"
        by (simp add: layoutChildren_def)
      ultimately show ?thesis
        using cmp unfolding completeLog_def by blast
    qed
    then show ?thesis
      using placed unfolding edg by force
  qed
qed

lemma distinct_submset:
  assumes "distinct ys" "mset xs \<subseteq># mset ys"
  shows "distinct xs"
  unfolding distinct_count_atmost_1
proof
  fix a
  have "count (mset xs) a \<le> count (mset ys) a"
    using assms(2) by (rule mset_subset_eq_count)
  also have "\<dots> \<le> 1"
    using assms(1) by (simp add: distinct_count_atmost_1)
  finally have le: "count (mset xs) a \<le> 1" .
  have z: "(count (mset xs) a = 0) = (a \<notin> set xs)"
    by (rule count_mset_0_iff)
  show "count (mset xs) a = (if a \<in> set xs then 1 else 0)"
  proof (cases "a \<in> set xs")
    case True
    with z have "count (mset xs) a \<noteq> 0" by simp
    with le have "count (mset xs) a = 1" by arith
    with True show ?thesis by simp
  next
    case False
    with z show ?thesis by simp
  qed
qed

lemma sum_list_sort_mset:
  "sum_list (map W (sort cs)) = sum_list (map W cs)" for W :: "'a::linorder \<Rightarrow> 'b multiset"
proof -
  have "mset (map W (sort cs)) = mset (map W cs)"
    by simp
  then show ?thesis
    by (metis sum_mset_sum_list)
qed

lemma eachLog_children:
  assumes "eachLog pl par depth cursor kids = Some L"
    and "\<And>c d y B. c \<in> fst ` set kids \<Longrightarrow> pl c d y = Some B \<Longrightarrow>
           add_mset c (mset (map (\<lambda>e. fst (snd e)) B)) \<subseteq># W c"
  shows "mset (map (\<lambda>e. fst (snd e)) L) \<subseteq># sum_list (map (\<lambda>k. W (fst k)) kids)"
  using assms
proof (induction kids arbitrary: cursor L)
  case Nil
  then show ?case by simp
next
  case (Cons k kids)
  obtain c sz where k: "k = (c, sz)" by (cases k)
  from Cons.prems(1) obtain below later where
    b: "pl c depth (cursor + of_nat sz / 2) = Some below" and
    l: "eachLog pl par depth (cursor + of_nat sz) kids = Some later" and
    L: "L = (par, c, \<lparr> pos_x = depth, pos_y = cursor + of_nat sz / 2 \<rparr>) # below @ later"
    unfolding k by (auto split: option.splits)
  have one: "add_mset c (mset (map (\<lambda>e. fst (snd e)) below)) \<subseteq># W c"
    by (rule Cons.prems(2) [OF _ b]) (simp add: k)
  have rest: "mset (map (\<lambda>e. fst (snd e)) later) \<subseteq># sum_list (map (\<lambda>k. W (fst k)) kids)"
    by (rule Cons.IH [OF l]) (use Cons.prems(2) in auto)
  have "mset (map (\<lambda>e. fst (snd e)) L) =
      add_mset c (mset (map (\<lambda>e. fst (snd e)) below)) + mset (map (\<lambda>e. fst (snd e)) later)"
    by (simp add: L)
  also have "\<dots> \<subseteq># W c + sum_list (map (\<lambda>k. W (fst k)) kids)"
    using one rest by (rule subset_mset.add_mono)
  finally show ?case by (simp add: k)
qed

lemma preorder_walk:
  assumes "preorder (Suc f) s p = Some ms"
  shows "mset ms = add_mset p (sum_list (map (walkOf f s) (childrenOf s p)))"
proof -
  from assms obtain below where
    t: "those (map (\<lambda>child. preorder f s child) (childrenOf s p)) = Some below"
    and ms: "ms = p # concat below"
    by auto
  from t have m: "map (\<lambda>child. preorder f s child) (childrenOf s p) = map Some below"
    by (simp add: those_eq_Some)
  have "map (walkOf f s) (childrenOf s p) = map mset below"
  proof -
    have "map (walkOf f s) (childrenOf s p) =
        map (\<lambda>r. case r of None \<Rightarrow> {#} | Some ms \<Rightarrow> mset ms)
          (map (\<lambda>child. preorder f s child) (childrenOf s p))"
      by (simp add: walkOf_def [abs_def] comp_def)
    also have "\<dots> = map mset below"
      unfolding m by (simp add: comp_def)
    finally show ?thesis .
  qed
  then show ?thesis
    by (simp add: ms mset_concat)
qed

lemma placeLog_children:
  "placeLog f s p d y = Some L \<Longrightarrow> preorder f s p = Some ms \<Longrightarrow>
   add_mset p (mset (map (\<lambda>e. fst (snd e)) L)) \<subseteq># mset ms"
proof (induction f arbitrary: p d y L ms)
  case 0
  then show ?case by simp
next
  case (Suc f)
  note walk = preorder_walk [OF Suc.prems(2)]
  show ?case
  proof (cases "isExpanded s p")
    case False
    with Suc.prems(1) have "L = []" by simp
    then show ?thesis by (simp add: walk)
  next
    case True
    let ?cs = "sort (childrenOf s p)"
    from Suc.prems(1) True obtain sizes where
      t: "those (map (\<lambda>child. countVisible f s child) ?cs) = Some sizes" and
      run: "eachLog (\<lambda>child d y. placeLog f s child d y) p (d + 1)
              (y - of_nat (foldl (+) 0 sizes) / 2) (zip ?cs sizes) = Some L"
      by (auto split: option.splits)
    have sz: "sizes = map (subtreeSize f s) ?cs"
      using t by (rule those_sizes) simp
    have kid: "add_mset c (mset (map (\<lambda>e. fst (snd e)) B)) \<subseteq># walkOf f s c"
      if "c \<in> fst ` set (zip ?cs sizes)" "placeLog f s c d' y' = Some B" for c d' y' B
    proof -
      from that(1) have "c \<in> set (childrenOf s p)"
        by (auto dest: set_zip_leftD)
      from preorder_children [OF Suc.prems(2) this] obtain below where
        w: "preorder f s c = Some below" ..
      from Suc.IH [OF that(2) w] show ?thesis
        by (simp add: walkOf_def w)
    qed
    have "mset (map (\<lambda>e. fst (snd e)) L) \<subseteq>#
        sum_list (map (\<lambda>k. walkOf f s (fst k)) (zip ?cs sizes))"
      using run kid by (rule eachLog_children)
    also have "sum_list (map (\<lambda>k. walkOf f s (fst k)) (zip ?cs sizes)) =
        sum_list (map (walkOf f s) ?cs)"
      unfolding sz zip_map_same by (simp add: comp_def)
    also have "\<dots> = sum_list (map (walkOf f s) (childrenOf s p))"
      by (rule sum_list_sort_mset)
    finally show ?thesis
      by (simp add: walk)
  qed
qed

lemma treeLog_children:
  assumes "treeLog fuel s = Some L"
    and "those (map (\<lambda>root. preorder fuel s root) (moduleRoots s)) = Some walks"
  shows "mset (map (\<lambda>e. fst (snd e)) L) \<subseteq># mset (concat walks)"
proof -
  from assms(1) obtain sizes where
    t: "those (map (\<lambda>root. countVisible fuel s root) (moduleRoots s)) = Some sizes" and
    run: "eachLog (\<lambda>root d y. placeLog fuel s root d y) ROOT_KEY 1
            (- of_nat (foldl (+) 0 sizes) / 2) (zip (moduleRoots s) sizes) = Some L"
    by (auto simp: treeLog_def split: option.splits)
  have sz: "sizes = map (subtreeSize fuel s) (moduleRoots s)"
    using t by (rule those_sizes) simp
  from assms(2) have m: "map (\<lambda>root. preorder fuel s root) (moduleRoots s) = map Some walks"
    by (simp add: those_eq_Some)
  have w: "map (walkOf fuel s) (moduleRoots s) = map mset walks"
  proof -
    have "map (walkOf fuel s) (moduleRoots s) =
        map (\<lambda>r. case r of None \<Rightarrow> {#} | Some ms \<Rightarrow> mset ms)
          (map (\<lambda>root. preorder fuel s root) (moduleRoots s))"
      by (simp add: walkOf_def [abs_def] comp_def)
    also have "\<dots> = map mset walks"
      unfolding m by (simp add: comp_def)
    finally show ?thesis .
  qed
  have kid: "add_mset c (mset (map (\<lambda>e. fst (snd e)) B)) \<subseteq># walkOf fuel s c"
    if "c \<in> fst ` set (zip (moduleRoots s) sizes)" "placeLog fuel s c d' y' = Some B" for c d' y' B
  proof -
    from that(1) have "c \<in> set (moduleRoots s)"
      by (auto dest: set_zip_leftD)
    then obtain i where "i < length (moduleRoots s)" "moduleRoots s ! i = c"
      by (auto simp: in_set_conv_nth)
    with m have "preorder fuel s c = Some (walks ! i)"
      by (metis length_map nth_map)
    from placeLog_children [OF that(2) this] this show ?thesis
      by (simp add: walkOf_def)
  qed
  have "mset (map (\<lambda>e. fst (snd e)) L) \<subseteq>#
      sum_list (map (\<lambda>k. walkOf fuel s (fst k)) (zip (moduleRoots s) sizes))"
    using run kid by (rule eachLog_children)
  also have "sum_list (map (\<lambda>k. walkOf fuel s (fst k)) (zip (moduleRoots s) sizes)) =
      sum_list (map (walkOf fuel s) (moduleRoots s))"
    unfolding sz zip_map_same by (simp add: comp_def)
  finally show ?thesis
    by (simp add: w mset_concat)
qed

lemma layoutTree_treeShaped:
  assumes "layoutTree fuel s = Some out" "moduleForest fuel s"
  shows "treeShaped out"
proof -
  from assms(1) obtain L where l: "treeLog fuel s = Some L"
    and edg: "layout_edges out = map (\<lambda>e. (fst e, fst (snd e))) L"
    by (rule layout_of_log)
  from assms(2) obtain walks where
    w: "those (map (\<lambda>root. preorder fuel s root) (moduleRoots s)) = Some walks"
    and d: "distinct (ROOT_KEY # concat walks)"
    by (auto simp: moduleForest_def split: option.splits)
  note sub = treeLog_children [OF l w]
  from d have "distinct (concat walks)" by simp
  then have "distinct (map (\<lambda>e. fst (snd e)) L)"
    using sub by (rule distinct_submset)
  moreover have "set (map (\<lambda>e. fst (snd e)) L) \<subseteq> set (concat walks)"
    using set_mset_mono [OF sub] by simp
  then have "ROOT_KEY \<notin> set (map (\<lambda>e. fst (snd e)) L)"
    using d by auto
  ultimately show ?thesis
    by (simp add: treeShaped_def edg comp_def)
qed

lemma moduleForest_returns:
  assumes "moduleForest fuel s"
  shows "\<exists>out. layoutTree fuel s = Some out"
proof -
  from assms obtain walks where
    w: "those (map (\<lambda>root. preorder fuel s root) (moduleRoots s)) = Some walks"
    by (auto simp: moduleForest_def split: option.splits)
  then have m: "map (\<lambda>root. preorder fuel s root) (moduleRoots s) = map Some walks"
    by (simp add: those_eq_Some)
  have "\<forall>r\<in>set (moduleRoots s). preorder fuel s r \<noteq> None"
  proof
    fix r assume "r \<in> set (moduleRoots s)"
    then obtain i where "i < length (moduleRoots s)" "moduleRoots s ! i = r"
      by (auto simp: in_set_conv_nth)
    with m have "preorder fuel s r = Some (walks ! i)"
      by (metis length_map nth_map)
    then show "preorder fuel s r \<noteq> None" by simp
  qed
  from treeLog_returns [OF this] show ?thesis
    unfolding layoutTree_log by auto
qed

lemma placeLog_sized:
  "placeLog f s p d y = Some L \<Longrightarrow> f \<le> F \<Longrightarrow> e \<in> set L \<Longrightarrow>
   countVisible F s (fst (snd e)) = Some (subtreeSize F s (fst (snd e)))"
proof (induction f arbitrary: p d y L)
  case 0
  then show ?case by simp
next
  case (Suc f)
  show ?case
  proof (cases "isExpanded s p")
    case False
    with Suc.prems show ?thesis by simp
  next
    case True
    let ?cs = "sort (childrenOf s p)"
    from Suc.prems(1) True obtain sizes where
      t: "those (map (\<lambda>child. countVisible f s child) ?cs) = Some sizes" and
      run: "eachLog (\<lambda>child d y. placeLog f s child d y) p (d + 1)
              (y - of_nat (foldl (+) 0 sizes) / 2) (zip ?cs sizes) = Some L"
      by (auto split: option.splits)
    from Suc.prems(2) have le: "f \<le> F" by simp
    from t have m: "map (\<lambda>child. countVisible f s child) ?cs = map Some sizes"
      by (simp add: those_eq_Some)
    from Suc.prems(3) have "slot (\<lambda>child d y. placeLog f s child d y) p (d + 1)
        (y - of_nat (foldl (+) 0 sizes) / 2) (zip ?cs sizes) e"
      using eachLog_mem [OF run] by simp
    then obtain pre c sz post below pos where
      k: "zip ?cs sizes = pre @ (c, sz) # post" and
      b: "placeLog f s c (d + 1) pos = Some below" and
      e: "e = (p, c, \<lparr> pos_x = d + 1, pos_y = pos \<rparr>) \<or> e \<in> set below"
      unfolding slot_def by blast
    from e show ?thesis
    proof
      assume e1: "e = (p, c, \<lparr> pos_x = d + 1, pos_y = pos \<rparr>)"
      have "(c, sz) \<in> set (zip ?cs sizes)"
        unfolding k by simp
      then have "c \<in> set ?cs" by (rule set_zip_leftD)
      then obtain i where i: "i < length ?cs" "?cs ! i = c"
        unfolding in_set_conv_nth by blast
      with m have "countVisible f s c = Some (sizes ! i)"
        by (metis length_map nth_map)
      from countVisible_mono_le [OF this le] show ?thesis
        by (simp add: e1 subtreeSize_def)
    next
      assume "e \<in> set below"
      from Suc.IH [OF b le this] show ?thesis .
    qed
  qed
qed

lemma treeLog_sized:
  assumes "treeLog fuel s = Some L" "e \<in> set L"
  shows "countVisible fuel s (fst (snd e)) = Some (subtreeSize fuel s (fst (snd e)))"
proof -
  from assms(1) obtain sizes where
    t: "those (map (\<lambda>root. countVisible fuel s root) (moduleRoots s)) = Some sizes" and
    run: "eachLog (\<lambda>root d y. placeLog fuel s root d y) ROOT_KEY 1
            (- of_nat (foldl (+) 0 sizes) / 2) (zip (moduleRoots s) sizes) = Some L"
    by (auto simp: treeLog_def split: option.splits)
  from t have m: "map (\<lambda>root. countVisible fuel s root) (moduleRoots s) = map Some sizes"
    by (simp add: those_eq_Some)
  from assms(2) have "slot (\<lambda>root d y. placeLog fuel s root d y) ROOT_KEY 1
      (- of_nat (foldl (+) 0 sizes) / 2) (zip (moduleRoots s) sizes) e"
    using eachLog_mem [OF run] by simp
  then obtain pre c sz post below pos where
    k: "zip (moduleRoots s) sizes = pre @ (c, sz) # post" and
    b: "placeLog fuel s c 1 pos = Some below" and
    e: "e = (ROOT_KEY, c, \<lparr> pos_x = 1, pos_y = pos \<rparr>) \<or> e \<in> set below"
    unfolding slot_def by blast
  from e show ?thesis
  proof
    assume e1: "e = (ROOT_KEY, c, \<lparr> pos_x = 1, pos_y = pos \<rparr>)"
    have "(c, sz) \<in> set (zip (moduleRoots s) sizes)"
      unfolding k by simp
    then have "c \<in> set (moduleRoots s)" by (rule set_zip_leftD)
    then obtain i where i: "i < length (moduleRoots s)" "moduleRoots s ! i = c"
      by (auto simp: in_set_conv_nth)
    with m have "countVisible fuel s c = Some (sizes ! i)"
      by (metis length_map nth_map)
    then show ?thesis
      by (simp add: e1 subtreeSize_def)
  next
    assume "e \<in> set below"
    from placeLog_sized [OF b _ this] show ?thesis by simp
  qed
qed

lemma countVisible_positive: "countVisible fuel s p = Some n \<Longrightarrow> 0 < n"
  by (cases fuel) (auto simp: foldl_add split: if_splits)

lemma layoutTree_edges:
  assumes lay: "layoutTree fuel s = Some out" and tree: "treeShaped out"
    and pc: "(p, c) \<in> set (layout_edges out)"
  shows "c \<in> set (layoutChildren s p) \<and>
         countVisible fuel s c = Some (subtreeSize fuel s c) \<and> 0 < subtreeSize fuel s c"
proof -
  let ?pos0 = "\<lparr> pos_x = 0, pos_y = 0 \<rparr>"
  from lay obtain L where l: "treeLog fuel s = Some L"
    and edg: "layout_edges out = map (\<lambda>e. (fst e, fst (snd e))) L"
    by (rule layout_of_log)
  from treeLog_good [OF l] have snd: "soundLog fuel s ROOT_KEY ?pos0 (moduleRoots s) L"
    by simp
  have d: "ROOT_KEY \<notin> (\<lambda>e. fst (snd e)) ` set L"
    using tree unfolding treeShaped_def edg by (simp add: comp_def)
  from pc obtain e where e: "e \<in> set L" "fst e = p" "fst (snd e) = c"
    unfolding edg by auto
  from treeLog_sized [OF l e(1)] e(3)
  have sz: "countVisible fuel s c = Some (subtreeSize fuel s c)" by simp
  from snd e(1) have "(fst e = ROOT_KEY \<and> justified fuel s ?pos0 (moduleRoots s) e) \<or>
      (\<exists>gp ppos. (gp, fst e, ppos) \<in> set L \<and> justified fuel s ppos (visibleChildren s (fst e)) e)"
    unfolding soundLog_def by blast
  then have "c \<in> set (layoutChildren s p)"
  proof
    assume "fst e = ROOT_KEY \<and> justified fuel s ?pos0 (moduleRoots s) e"
    then show ?thesis
      using justified_child [of fuel s ?pos0 "moduleRoots s" e] e by (simp add: layoutChildren_def)
  next
    assume "\<exists>gp ppos. (gp, fst e, ppos) \<in> set L \<and> justified fuel s ppos (visibleChildren s (fst e)) e"
    then obtain gp ppos where g: "(gp, p, ppos) \<in> set L"
      and j: "justified fuel s ppos (visibleChildren s p) e"
      using e(2) by blast
    from g d have "p \<noteq> ROOT_KEY" by force
    with justified_child [OF j] e(3) show ?thesis by (simp add: layoutChildren_def)
  qed
  with sz countVisible_positive [OF sz] show ?thesis by simp
qed

text \<open>
  Claim C5. When the module map is a forest below the roots, \<^verbatim>\<open>layoutTree\<close> returns
  a layout with the root key at depth 0 and center 0, in which every tree edge leads from
  a key to one of the children that the layout places under it (a sorted root under the
  root key, a sorted child of an expanded module otherwise), for which
  \<^verbatim>\<open>countVisible\<close> returns a positive subtree size, at a position one level deeper;
  and every such child of a key with a position lies at the center that \<open>childPos\<close>
  gives: the spans of the children, each as long as the child's subtree size, start at
  the parent's center minus half of their total, follow one another without gap, and end
  at the parent's center plus half of the total, so the parent is centered on the
  combined span. In every layout that \<^verbatim>\<open>layoutTree\<close> returns, every key of the
  positions map is the root key, a root module, or a child of an expanded module that has
  a position itself; so a module that only its parent lists as a child and whose parent is
  not expanded has no position.
\<close>

theorem layoutTree_positions:
  "(moduleForest fuel s \<longrightarrow>
      (\<exists>out. layoutTree fuel s = Some out \<and>
         map_of (positions out) ROOT_KEY = Some \<lparr> pos_x = 0, pos_y = 0 \<rparr> \<and>
         (\<forall>p c. (p, c) \<in> set (layout_edges out) \<longrightarrow>
            c \<in> set (layoutChildren s p) \<and>
            countVisible fuel s c = Some (subtreeSize fuel s c) \<and> 0 < subtreeSize fuel s c \<and>
            (\<exists>ppos cpos. map_of (positions out) p = Some ppos \<and>
               map_of (positions out) c = Some cpos \<and> pos_x cpos = pos_x ppos + 1)) \<and>
         (\<forall>p ppos pre c post.
            map_of (positions out) p = Some ppos \<and> layoutChildren s p = pre @ c # post \<longrightarrow>
            map_of (positions out) c = Some (childPos fuel s ppos pre c post) \<and>
            (p, c) \<in> set (layout_edges out)))) \<and>
   (layoutTree fuel s = Some out \<longrightarrow>
      (\<forall>m. map_of (positions out) m \<noteq> None \<longrightarrow>
         m = ROOT_KEY \<or> m \<in> set (moduleRoots s) \<or>
         (\<exists>q. isExpanded s q \<and> m \<in> set (childrenOf s q) \<and> map_of (positions out) q \<noteq> None)) \<and>
      (\<forall>m. m \<noteq> ROOT_KEY \<and> m \<notin> set (moduleRoots s) \<and>
         (\<forall>q. m \<in> set (childrenOf s q) \<longrightarrow> q = parentOf s m) \<and>
         \<not> isExpanded s (parentOf s m) \<longrightarrow> map_of (positions out) m = None)) \<and>
   (\<forall>ppos pre c c' post.
      spanLow fuel s (childPos fuel s ppos [] c post) c =
        pos_y ppos - of_nat (sum_list (map (subtreeSize fuel s) (c # post))) / 2 \<and>
      spanHigh fuel s (childPos fuel s ppos pre c []) c =
        pos_y ppos + of_nat (sum_list (map (subtreeSize fuel s) (pre @ [c]))) / 2 \<and>
      spanHigh fuel s (childPos fuel s ppos pre c (c' # post)) c =
        spanLow fuel s (childPos fuel s ppos (pre @ [c]) c' post) c' \<and>
      spanHigh fuel s (childPos fuel s ppos pre c post) c -
        spanLow fuel s (childPos fuel s ppos pre c post) c = of_nat (subtreeSize fuel s c))"
proof -
  have absent: "map_of (positions out) m = None"
    if lay: "layoutTree fuel s = Some out" and m: "m \<noteq> ROOT_KEY" "m \<notin> set (moduleRoots s)"
      "\<forall>q. m \<in> set (childrenOf s q) \<longrightarrow> q = parentOf s m" "\<not> isExpanded s (parentOf s m)" for m
  proof (rule ccontr)
    assume "map_of (positions out) m \<noteq> None"
    from layoutTree_dom [OF lay this] m(1,2) obtain q where
      "isExpanded s q" "m \<in> set (childrenOf s q)" by blast
    with m(3,4) show False by blast
  qed
  have forest: "\<exists>out. layoutTree fuel s = Some out \<and>
         map_of (positions out) ROOT_KEY = Some \<lparr> pos_x = 0, pos_y = 0 \<rparr> \<and>
         (\<forall>p c. (p, c) \<in> set (layout_edges out) \<longrightarrow>
            c \<in> set (layoutChildren s p) \<and>
            countVisible fuel s c = Some (subtreeSize fuel s c) \<and> 0 < subtreeSize fuel s c \<and>
            (\<exists>ppos cpos. map_of (positions out) p = Some ppos \<and>
               map_of (positions out) c = Some cpos \<and> pos_x cpos = pos_x ppos + 1)) \<and>
         (\<forall>p ppos pre c post.
            map_of (positions out) p = Some ppos \<and> layoutChildren s p = pre @ c # post \<longrightarrow>
            map_of (positions out) c = Some (childPos fuel s ppos pre c post) \<and>
            (p, c) \<in> set (layout_edges out))"
    if f: "moduleForest fuel s"
  proof -
    from moduleForest_returns [OF f] obtain lay where lay: "layoutTree fuel s = Some lay" ..
    from layoutTree_treeShaped [OF lay f] have tree: "treeShaped lay" .
    show ?thesis
      using lay layoutTree_tree [OF lay tree] layoutTree_edges [OF lay tree]
      by (intro exI [of _ lay] conjI allI impI) blast+
  qed
  show ?thesis
    using forest layoutTree_dom [of fuel s out] absent childPos_spans [of fuel s]
    by (intro conjI impI allI) blast+
qed

lemma full_forest: "moduleForest 4 fullState"
  by code_simp

lemma full_layout: "layoutTree 4 fullState = Some fullLayout"
  by code_simp

lemma full_children: "layoutChildren fullState ''pkg.b'' = [] @ ''pkg.b.c'' # [''pkg.b.d'']"
  by code_simp

lemma full_childPos:
  "childPos 4 fullState \<lparr>pos_x = 2, pos_y = 1 / 2\<rparr> [] ''pkg.b.c'' [''pkg.b.d''] = \<lparr>pos_x = 3, pos_y = 0\<rparr>"
  by code_simp

lemma demo_layout:
  "layoutTree 4 demoState =
     Some \<lparr> positions =
         [(''__root__'', \<lparr>pos_x = 0, pos_y = 0\<rparr>),
          (''pkg'', \<lparr>pos_x = 1, pos_y = 0\<rparr>),
          (''pkg.a'', \<lparr>pos_x = 2, pos_y = - (1 / 2)\<rparr>),
          (''pkg.b'', \<lparr>pos_x = 2, pos_y = 1 / 2\<rparr>)],
       layout_edges = [(''__root__'', ''pkg''), (''pkg'', ''pkg.a''), (''pkg'', ''pkg.b'')] \<rparr>"
  by code_simp

theorem layoutTree_positions_witness:
  "moduleForest 4 fullState \<and> layoutTree 4 fullState = Some fullLayout \<and>
   map_of (positions fullLayout) ''pkg.b'' = Some \<lparr>pos_x = 2, pos_y = 1 / 2\<rparr> \<and>
   map_of (positions fullLayout) ''pkg.b.c'' = Some \<lparr>pos_x = 3, pos_y = 0\<rparr> \<and>
   (''pkg.b'', ''pkg.b.c'') \<in> set (layout_edges fullLayout) \<and>
   (\<exists>layout. layoutTree 4 demoState = Some layout \<and> map_of (positions layout) ''pkg.b.c'' = None)"
proof -
  have p: "map_of (positions fullLayout) ''pkg.b'' = Some \<lparr>pos_x = 2, pos_y = 1 / 2\<rparr>"
    by (simp add: fullLayout_def)
  from layoutTree_positions [of 4 fullState fullLayout] full_forest full_layout
  have "\<forall>p ppos pre c post.
      map_of (positions fullLayout) p = Some ppos \<and> layoutChildren fullState p = pre @ c # post \<longrightarrow>
      map_of (positions fullLayout) c = Some (childPos 4 fullState ppos pre c post) \<and>
      (p, c) \<in> set (layout_edges fullLayout)"
    by auto
  with p full_children have
    "map_of (positions fullLayout) ''pkg.b.c'' =
       Some (childPos 4 fullState \<lparr>pos_x = 2, pos_y = 1 / 2\<rparr> [] ''pkg.b.c'' [''pkg.b.d'']) \<and>
     (''pkg.b'', ''pkg.b.c'') \<in> set (layout_edges fullLayout)"
    by blast
  then have a: "map_of (positions fullLayout) ''pkg.b.c'' = Some \<lparr>pos_x = 3, pos_y = 0\<rparr>"
    and b: "(''pkg.b'', ''pkg.b.c'') \<in> set (layout_edges fullLayout)"
    unfolding full_childPos by simp_all
  have c: "\<exists>layout. layoutTree 4 demoState = Some layout \<and> map_of (positions layout) ''pkg.b.c'' = None"
    unfolding demo_layout by simp
  show ?thesis
    using full_forest full_layout p a b c by blast
qed

end
